theory Spec2Isabelle
  imports Main "HOL-Library.Word"
begin

unbundle bit_operations_syntax

section \<open>Common data model\<close>

text \<open>
  The repository holds three notebooks: the naive scheme, the short-private-key scheme
  and the short-public-key scheme. All values are Python \<open>bytes\<close> (lists of 8-bit words)
  or Python \<open>int\<close>s. The hash \<open>hashlib.sha3_256(b).digest()\<close> and the AES-CTR keystream are
  library primitives; they are parameters of the model. A message is a \<open>string\<close>, whose
  characters are the bytes of its UTF-8 encoding.
\<close>

type_synonym byte = "8 word"
type_synonym bytes = "byte list"
type_synonym hash = "bytes \<Rightarrow> bytes"

datatype py_error = IndexError | OverflowError | RecursionError | ValueError | KeyError

definition security_parameter :: nat where
  "security_parameter = 256"

definition max_message_length :: nat where
  "max_message_length = 256"

text \<open>The contract of SHA3-256 the code relies on: a digest has 32 bytes.\<close>

definition digest32 :: "hash \<Rightarrow> bool" where
  "digest32 H = (\<forall>b. length (H b) = 32)"

text \<open>\<open>xs[i]\<close> for a non-negative index: IndexError out of range.\<close>

definition getitem :: "'a list \<Rightarrow> nat \<Rightarrow> py_error + 'a" where
  "getitem xs i = (if i < length xs then Inr (xs ! i) else Inl IndexError)"

text \<open>\<open>list(map(f, xs))\<close> where \<open>f\<close> may raise: the first error ends the evaluation.\<close>

fun map_raise :: "('a \<Rightarrow> py_error + 'b) \<Rightarrow> 'a list \<Rightarrow> py_error + 'b list" where
  "map_raise f [] = Inr []"
| "map_raise f (x # xs) =
     (case f x of
        Inl e \<Rightarrow> Inl e
      | Inr y \<Rightarrow> (case map_raise f xs of Inl e \<Rightarrow> Inl e | Inr ys \<Rightarrow> Inr (y # ys)))"

text \<open>\<open>message.encode()\<close>: the bytes of the string.\<close>

definition encode :: "string \<Rightarrow> bytes" where
  "encode message = map of_char message"

definition hash_message :: "hash \<Rightarrow> string \<Rightarrow> bytes" where
  "hash_message H message = H (encode message)"

definition hash_bytes :: "hash \<Rightarrow> bytes \<Rightarrow> bytes" where
  "hash_bytes H b = H b"

section \<open>Bit selection\<close>

text \<open>
  \<open>choose_key_elements\<close> (naive and short-private-key notebooks): the two nested loops,
  with \<open>output\<close> threaded through. \<open>message_hash[i]\<close> and \<open>key[key_index]\<close> raise IndexError
  out of range.
\<close>

fun choose_inner :: "bytes \<Rightarrow> 'a list \<Rightarrow> nat \<Rightarrow> nat list \<Rightarrow> 'a list \<Rightarrow> py_error + 'a list" where
  "choose_inner message_hash key i [] output = Inr output"
| "choose_inner message_hash key i (j # js) output =
     (let bit_index = i * 8 + j;
          bit_mask = drop_bit j (128 :: byte)
      in case getitem message_hash i of
           Inl e \<Rightarrow> Inl e
         | Inr b \<Rightarrow>
             (let key_bit = (if b AND bit_mask \<noteq> 0 then 1 else 0);
                  key_index = 2 * bit_index + key_bit
              in case getitem key key_index of
                   Inl e \<Rightarrow> Inl e
                 | Inr x \<Rightarrow> choose_inner message_hash key i js (output @ [x])))"

fun choose_outer :: "bytes \<Rightarrow> 'a list \<Rightarrow> nat list \<Rightarrow> 'a list \<Rightarrow> py_error + 'a list" where
  "choose_outer message_hash key [] output = Inr output"
| "choose_outer message_hash key (i # is) output =
     (case choose_inner message_hash key i [0..<8] output of
        Inl e \<Rightarrow> Inl e
      | Inr output' \<Rightarrow> choose_outer message_hash key is output')"

definition choose_key_elements :: "bytes \<Rightarrow> 'a list \<Rightarrow> py_error + 'a list" where
  "choose_key_elements message_hash key =
     choose_outer message_hash key [0..<max_message_length div 8] []"

text \<open>\<open>convert_bytes_to_bits\<close> (short-public-key notebook).\<close>

definition convert_bytes_to_bits :: "bytes \<Rightarrow> bool list" where
  "convert_bytes_to_bits b =
     concat (map (\<lambda>i. map (\<lambda>j. (b ! i) AND drop_bit j (128 :: byte) \<noteq> 0) [0..<8]) [0..<length b])"

text \<open>The bit of a digest at position \<open>k\<close>, most significant bit of byte 0 first.\<close>

definition digest_bit :: "bytes \<Rightarrow> nat \<Rightarrow> bool" where
  "digest_bit b k = bit (b ! (k div 8)) (7 - k mod 8)"

text \<open>The index \<open>choose_key_elements\<close> reads at bit position \<open>k\<close>.\<close>

definition key_index :: "bytes \<Rightarrow> nat \<Rightarrow> nat" where
  "key_index message_hash k = 2 * k + (if digest_bit message_hash k then 1 else 0)"

section \<open>Library primitives the notebooks call\<close>

text \<open>
  \<open>int.to_bytes(length, byteorder='big')\<close> of an unsigned value: OverflowError when the
  integer is negative or does not fit.
\<close>

definition to_bytes :: "int \<Rightarrow> nat \<Rightarrow> py_error + bytes" where
  "to_bytes n len =
     (if n < 0 \<or> 2 ^ (8 * len) \<le> n then Inl OverflowError
      else Inr (map (\<lambda>k. word_of_int (n div 2 ^ (8 * (len - 1 - k)))) [0..<len]))"

text \<open>\<open>int.from_bytes(bs, 'big')\<close>.\<close>

definition from_bytes :: "bytes \<Rightarrow> int" where
  "from_bytes bs = foldl (\<lambda>acc b. acc * 256 + uint b) 0 bs"

text \<open>
  The \<open>secrets\<close> module reads the operating system's random bytes. The source of randomness
  is a stream \<open>rnd\<close> of bytes and the state is the position reached in it:
  \<open>secrets.token_bytes(n)\<close> takes the next \<open>n\<close> bytes, and \<open>secrets.randbits(k)\<close> takes
  \<open>(k + 7) // 8\<close> bytes, reads them as a big-endian integer and shifts the surplus bits out.
\<close>

type_synonym urandom = "nat \<Rightarrow> byte"

definition token_bytes :: "urandom \<Rightarrow> nat \<Rightarrow> nat \<Rightarrow> bytes \<times> nat" where
  "token_bytes rnd n pos = (map rnd [pos..<pos + n], pos + n)"

definition randbits :: "urandom \<Rightarrow> nat \<Rightarrow> nat \<Rightarrow> int \<times> nat" where
  "randbits rnd k pos =
     (let numbytes = (k + 7) div 8
      in case token_bytes rnd numbytes pos of
           (bs, pos') \<Rightarrow> (from_bytes bs div 2 ^ (numbytes * 8 - k), pos'))"

text \<open>
  A list comprehension \<open>[act() for _ in range(n)]\<close> whose body changes a state: the state
  is threaded through the \<open>n\<close> evaluations, in order.
\<close>

fun comprehension :: "('s \<Rightarrow> 'a \<times> 's) \<Rightarrow> nat \<Rightarrow> 's \<Rightarrow> 'a list \<times> 's" where
  "comprehension act 0 s = ([], s)"
| "comprehension act (Suc n) s =
     (case act s of
        (x, s') \<Rightarrow> (case comprehension act n s' of (xs, s'') \<Rightarrow> (x # xs, s'')))"

text \<open>
  AES-256 in counter mode (package \<open>cryptography\<close>). The keystream is a parameter \<open>ks\<close>:
  \<open>ks key nonce n\<close> is its byte at offset \<open>n\<close>. \<open>algorithms.AES256(key)\<close> raises ValueError
  unless the key has 32 bytes, and \<open>Cipher(algorithm, modes.CTR(nonce))\<close> raises ValueError
  unless the nonce has 16 bytes. An encryptor holds the offset it has reached;
  \<open>enc.update(data)\<close> returns the data xor the next keystream bytes and advances the offset.
\<close>

type_synonym keystream = "bytes \<Rightarrow> bytes \<Rightarrow> nat \<Rightarrow> byte"

record encryptor =
  enc_key :: bytes
  enc_nonce :: bytes
  enc_pos :: nat

definition AES256 :: "bytes \<Rightarrow> py_error + bytes" where
  "AES256 key = (if length key = 32 then Inr key else Inl ValueError)"

definition Cipher :: "bytes \<Rightarrow> bytes \<Rightarrow> py_error + bytes \<times> bytes" where
  "Cipher algorithm_key nonce =
     (if length nonce = 16 then Inr (algorithm_key, nonce) else Inl ValueError)"

definition new_encryptor :: "bytes \<times> bytes \<Rightarrow> encryptor" where
  "new_encryptor cipher = \<lparr>enc_key = fst cipher, enc_nonce = snd cipher, enc_pos = 0\<rparr>"

definition update :: "keystream \<Rightarrow> bytes \<Rightarrow> encryptor \<Rightarrow> bytes \<times> encryptor" where
  "update ks data enc =
     (map (\<lambda>k. (data ! k) XOR ks (enc_key enc) (enc_nonce enc) (enc_pos enc + k)) [0..<length data],
      enc\<lparr>enc_pos := enc_pos enc + length data\<rparr>)"

section \<open>Naive scheme\<close>

text \<open>Keys and signatures are lists of Python integers (\<open>PrivateKey = list[int]\<close>).\<close>

definition hash_key_element :: "hash \<Rightarrow> int \<Rightarrow> py_error + bytes" where
  "hash_key_element H key_element =
     (let bytes_length = security_parameter div 8
      in case to_bytes key_element bytes_length of
           Inl e \<Rightarrow> Inl e
         | Inr b \<Rightarrow> Inr (H b))"

definition generate_private_key_naive :: "urandom \<Rightarrow> nat \<Rightarrow> int list \<times> nat" where
  "generate_private_key_naive rnd pos =
     comprehension (randbits rnd security_parameter) (2 * max_message_length) pos"

definition generate_public_key_naive :: "hash \<Rightarrow> int list \<Rightarrow> py_error + bytes list" where
  "generate_public_key_naive H private_key = map_raise (hash_key_element H) private_key"

definition generate_keypair_naive ::
  "hash \<Rightarrow> urandom \<Rightarrow> nat \<Rightarrow> (py_error + bytes list \<times> int list) \<times> nat" where
  "generate_keypair_naive H rnd pos =
     (case generate_private_key_naive rnd pos of
        (private_key, pos') \<Rightarrow>
          (case generate_public_key_naive H private_key of
             Inl e \<Rightarrow> (Inl e, pos')
           | Inr public_key \<Rightarrow> (Inr (public_key, private_key), pos')))"

definition sign_message_naive :: "hash \<Rightarrow> string \<Rightarrow> int list \<Rightarrow> py_error + int list" where
  "sign_message_naive H message private_key =
     (let message_hash = hash_message H message
      in choose_key_elements message_hash private_key)"

definition verify_signature_naive ::
  "hash \<Rightarrow> string \<Rightarrow> bytes list \<Rightarrow> int list \<Rightarrow> py_error + bool" where
  "verify_signature_naive H message public_key signature =
     (let message_hash = hash_message H message
      in case choose_key_elements message_hash public_key of
           Inl e \<Rightarrow> Inl e
         | Inr chosen_signature_hashes \<Rightarrow>
             (case map_raise (hash_key_element H) signature of
                Inl e \<Rightarrow> Inl e
              | Inr derived_signature_hashes \<Rightarrow>
                  Inr (chosen_signature_hashes = derived_signature_hashes)))"

section \<open>Short private key scheme\<close>

text \<open>
  The private key is a dictionary with the entries \<open>'key'\<close> and \<open>'nonce'\<close>
  (\<open>PrivateKey = dict\<close>); \<open>private_key['key']\<close> raises KeyError when the entry is missing.
\<close>

type_synonym py_dict = "string \<rightharpoonup> bytes"

definition subscript :: "py_dict \<Rightarrow> string \<Rightarrow> py_error + bytes" where
  "subscript d k = (case d k of None \<Rightarrow> Inl KeyError | Some v \<Rightarrow> Inr v)"

definition expand_private_key :: "keystream \<Rightarrow> py_dict \<Rightarrow> py_error + bytes list" where
  "expand_private_key ks private_key =
     (case subscript private_key ''key'' of
        Inl e \<Rightarrow> Inl e
      | Inr k \<Rightarrow>
     (case AES256 k of
        Inl e \<Rightarrow> Inl e
      | Inr algorithm \<Rightarrow>
     (case subscript private_key ''nonce'' of
        Inl e \<Rightarrow> Inl e
      | Inr n \<Rightarrow>
     (case Cipher algorithm n of
        Inl e \<Rightarrow> Inl e
      | Inr cipher \<Rightarrow>
     (case to_bytes 0 32 of
        Inl e \<Rightarrow> Inl e
      | Inr zero_bytes \<Rightarrow>
          (let enc = new_encryptor cipher
           in Inr (fst (comprehension (update ks zero_bytes) (max_message_length * 2) enc))))))))"

definition generate_private_key_short_priv :: "urandom \<Rightarrow> nat \<Rightarrow> py_dict \<times> nat" where
  "generate_private_key_short_priv rnd pos =
     (case token_bytes rnd (security_parameter div 8) pos of
        (CSPRNG_key, pos1) \<Rightarrow>
          (case token_bytes rnd 16 pos1 of
             (CSPRNG_nonce, pos2) \<Rightarrow>
               ([''key'' \<mapsto> CSPRNG_key, ''nonce'' \<mapsto> CSPRNG_nonce], pos2)))"

definition generate_public_key_short_priv ::
  "keystream \<Rightarrow> hash \<Rightarrow> py_dict \<Rightarrow> py_error + bytes list" where
  "generate_public_key_short_priv ks H private_key =
     (case expand_private_key ks private_key of
        Inl e \<Rightarrow> Inl e
      | Inr expanded_private_key \<Rightarrow> Inr (map (hash_bytes H) expanded_private_key))"

definition generate_keypair_short_priv ::
  "keystream \<Rightarrow> hash \<Rightarrow> urandom \<Rightarrow> nat \<Rightarrow> (py_error + bytes list \<times> py_dict) \<times> nat" where
  "generate_keypair_short_priv ks H rnd pos =
     (case generate_private_key_short_priv rnd pos of
        (private_key, pos') \<Rightarrow>
          (case generate_public_key_short_priv ks H private_key of
             Inl e \<Rightarrow> (Inl e, pos')
           | Inr public_key \<Rightarrow> (Inr (public_key, private_key), pos')))"

definition sign_message_short_priv ::
  "keystream \<Rightarrow> hash \<Rightarrow> string \<Rightarrow> py_dict \<Rightarrow> py_error + bytes list" where
  "sign_message_short_priv ks H message private_key =
     (let message_hash = hash_message H message
      in case expand_private_key ks private_key of
           Inl e \<Rightarrow> Inl e
         | Inr expanded_private_key \<Rightarrow> choose_key_elements message_hash expanded_private_key)"

definition verify_signature_short_priv ::
  "hash \<Rightarrow> string \<Rightarrow> bytes list \<Rightarrow> bytes list \<Rightarrow> py_error + bool" where
  "verify_signature_short_priv H message public_key signature =
     (let message_hash = hash_message H message
      in case choose_key_elements message_hash public_key of
           Inl e \<Rightarrow> Inl e
         | Inr chosen_signature_hashes \<Rightarrow>
             (let derived_signature_hashes = map (hash_bytes H) signature
              in Inr (chosen_signature_hashes = derived_signature_hashes)))"

section \<open>Short public key scheme\<close>

text \<open>
  \<open>merkle_root\<close> is recursive and has no case for the empty list, where the recursion never
  reaches the base case and Python raises RecursionError. The first argument after the hash
  is the number of stack frames still available: each call uses one.
\<close>

fun merkle_root :: "hash \<Rightarrow> nat \<Rightarrow> bytes list \<Rightarrow> py_error + bytes" where
  "merkle_root H 0 ls = Inl RecursionError"
| "merkle_root H (Suc depth) ls =
     (if length ls = 1 then getitem ls 0
      else case merkle_root H depth (take (length ls div 2) ls) of
             Inl e \<Rightarrow> Inl e
           | Inr left_subtree \<Rightarrow>
               (case merkle_root H depth (drop (length ls div 2) ls) of
                  Inl e \<Rightarrow> Inl e
                | Inr right_subtree \<Rightarrow> Inr (hash_bytes H (left_subtree @ right_subtree))))"

definition generate_private_key_short_pub :: "urandom \<Rightarrow> nat \<Rightarrow> bytes list \<times> nat" where
  "generate_private_key_short_pub rnd pos =
     comprehension (token_bytes rnd (security_parameter div 8)) (2 * max_message_length) pos"

definition generate_public_key_short_pub :: "hash \<Rightarrow> nat \<Rightarrow> bytes list \<Rightarrow> py_error + bytes" where
  "generate_public_key_short_pub H depth private_key =
     (let expanded_public_key = map (hash_bytes H) private_key
      in merkle_root H depth expanded_public_key)"

definition generate_keypair_short_pub ::
  "hash \<Rightarrow> nat \<Rightarrow> urandom \<Rightarrow> nat \<Rightarrow> (py_error + bytes \<times> bytes list) \<times> nat" where
  "generate_keypair_short_pub H depth rnd pos =
     (case generate_private_key_short_pub rnd pos of
        (private_key, pos') \<Rightarrow>
          (case generate_public_key_short_pub H depth private_key of
             Inl e \<Rightarrow> (Inl e, pos')
           | Inr public_key \<Rightarrow> (Inr (public_key, private_key), pos')))"

text \<open>The loop of \<open>sign_message\<close>: two appends for each bit position.\<close>

fun sign_loop ::
  "hash \<Rightarrow> bool list \<Rightarrow> bytes list \<Rightarrow> nat list \<Rightarrow> bytes list \<Rightarrow> py_error + bytes list" where
  "sign_loop H message_bits private_key [] signature = Inr signature"
| "sign_loop H message_bits private_key (i # is) signature =
     (case getitem message_bits i of
        Inl e \<Rightarrow> Inl e
      | Inr b \<Rightarrow>
          if b = False then
            (case getitem private_key (2 * i) of
               Inl e \<Rightarrow> Inl e
             | Inr x0 \<Rightarrow>
                 (case getitem private_key (2 * i + 1) of
                    Inl e \<Rightarrow> Inl e
                  | Inr x1 \<Rightarrow>
                      sign_loop H message_bits private_key is
                        ((signature @ [x0]) @ [hash_bytes H x1])))
          else
            (case getitem private_key (2 * i) of
               Inl e \<Rightarrow> Inl e
             | Inr x0 \<Rightarrow>
                 (case getitem private_key (2 * i + 1) of
                    Inl e \<Rightarrow> Inl e
                  | Inr x1 \<Rightarrow>
                      sign_loop H message_bits private_key is
                        ((signature @ [hash_bytes H x0]) @ [x1]))))"

definition sign_message_short_pub :: "hash \<Rightarrow> string \<Rightarrow> bytes list \<Rightarrow> py_error + bytes list" where
  "sign_message_short_pub H message private_key =
     (let message_hash = hash_message H message;
          message_bits = convert_bytes_to_bits message_hash
      in sign_loop H message_bits private_key [0..<length message_bits] [])"

text \<open>
  \<open>verify_signature\<close> assigns to items of a list, so the lists live in a store: a heap is
  the sequence of the list objects allocated so far and a reference is an index into it.
  The caller passes a reference to its signature; \<open>signature.copy()\<close> allocates a new
  list. Item assignment raises IndexError out of range.
\<close>

type_synonym heap = "bytes list list"

definition list_copy :: "nat \<Rightarrow> heap \<Rightarrow> nat \<times> heap" where
  "list_copy r h = (length h, h @ [h ! r])"

definition heap_getitem :: "heap \<Rightarrow> nat \<Rightarrow> nat \<Rightarrow> py_error + bytes" where
  "heap_getitem h r i = getitem (h ! r) i"

definition heap_setitem :: "heap \<Rightarrow> nat \<Rightarrow> nat \<Rightarrow> bytes \<Rightarrow> py_error + heap" where
  "heap_setitem h r i v =
     (if i < length (h ! r) then Inr (h[r := (h ! r)[i := v]]) else Inl IndexError)"

fun verify_loop ::
  "hash \<Rightarrow> bool list \<Rightarrow> nat \<Rightarrow> nat list \<Rightarrow> heap \<Rightarrow> (py_error + unit) \<times> heap" where
  "verify_loop H message_bits modified_signature [] h = (Inr (), h)"
| "verify_loop H message_bits modified_signature (i # is) h =
     (case getitem message_bits i of
        Inl e \<Rightarrow> (Inl e, h)
      | Inr b \<Rightarrow>
          if b = False then
            (case heap_getitem h modified_signature (2 * i) of
               Inl e \<Rightarrow> (Inl e, h)
             | Inr x \<Rightarrow>
                 (case heap_setitem h modified_signature (2 * i) (hash_bytes H x) of
                    Inl e \<Rightarrow> (Inl e, h)
                  | Inr h' \<Rightarrow> verify_loop H message_bits modified_signature is h'))
          else
            (case heap_getitem h modified_signature (2 * i + 1) of
               Inl e \<Rightarrow> (Inl e, h)
             | Inr x \<Rightarrow>
                 (case heap_setitem h modified_signature (2 * i + 1) (hash_bytes H x) of
                    Inl e \<Rightarrow> (Inl e, h)
                  | Inr h' \<Rightarrow> verify_loop H message_bits modified_signature is h')))"

definition verify_signature_short_pub ::
  "hash \<Rightarrow> nat \<Rightarrow> string \<Rightarrow> bytes \<Rightarrow> nat \<Rightarrow> heap \<Rightarrow> (py_error + bool) \<times> heap" where
  "verify_signature_short_pub H depth message public_key signature h =
     (let message_hash = hash_message H message;
          message_bits = convert_bytes_to_bits message_hash
      in case list_copy signature h of
           (modified_signature, h1) \<Rightarrow>
             (case verify_loop H message_bits modified_signature [0..<length message_bits] h1 of
                (Inl e, h2) \<Rightarrow> (Inl e, h2)
              | (Inr u, h2) \<Rightarrow>
                  (case merkle_root H depth (h2 ! modified_signature) of
                     Inl e \<Rightarrow> (Inl e, h2)
                   | Inr root \<Rightarrow> (Inr (public_key = root), h2))))"

section \<open>Auxiliary functions of the proofs\<close>

text \<open>The 32 bytes of a 256-bit value, most significant first.\<close>

definition be32 :: "int \<Rightarrow> bytes" where
  "be32 n = map (\<lambda>k. word_of_int (n div 2 ^ (8 * (31 - k)))) [0..<32]"

text \<open>A 256-bit value: what \<open>hash_key_element\<close> can write as 32 bytes.\<close>

definition uint256 :: "int \<Rightarrow> bool" where
  "uint256 n = (0 \<le> n \<and> n < 2 ^ 256)"

text \<open>The two elements \<open>sign_message\<close> appends at bit position \<open>i\<close> (short public key).\<close>

definition signed_pair :: "hash \<Rightarrow> bool list \<Rightarrow> bytes list \<Rightarrow> nat \<Rightarrow> bytes list" where
  "signed_pair H message_bits private_key i =
     (if message_bits ! i then [H (private_key ! (2 * i)), private_key ! (2 * i + 1)]
      else [private_key ! (2 * i), H (private_key ! (2 * i + 1))])"

text \<open>The index \<open>verify_signature\<close> replaces at bit position \<open>i\<close> (short public key).\<close>

definition promoted_index :: "bool list \<Rightarrow> nat \<Rightarrow> nat" where
  "promoted_index message_bits i = 2 * i + (if message_bits ! i then 1 else 0)"

text \<open>The replacements of \<open>verify_signature\<close> on a list value.\<close>

fun promote :: "hash \<Rightarrow> bool list \<Rightarrow> nat list \<Rightarrow> bytes list \<Rightarrow> bytes list" where
  "promote H message_bits [] xs = xs"
| "promote H message_bits (i # is) xs =
     promote H message_bits is
       (xs[promoted_index message_bits i := H (xs ! promoted_index message_bits i)])"

section \<open>Facts about bit selection\<close>

lemma drop_bit_128: "j < 8 \<Longrightarrow> drop_bit j (128 :: byte) = 2 ^ (7 - j)"
proof -
  assume "j < 8"
  then have "j \<in> {0, 1, 2, 3, 4, 5, 6, 7}" by auto
  then show ?thesis by (elim insertE emptyE) (simp_all add: drop_bit_eq_div)
qed

lemma mask_test: "j < 8 \<Longrightarrow> ((w :: byte) AND drop_bit j 128 \<noteq> 0) = bit w (7 - j)"
  by (simp add: drop_bit_128 and_exp_eq_0_iff_not_bit)

lemma key_index_inner:
  "j < 8 \<Longrightarrow>
   2 * (i * 8 + j) + (if (mh ! i) AND drop_bit j (128 :: byte) \<noteq> 0 then 1 else 0) = key_index mh (i * 8 + j)"
  by (simp add: key_index_def digest_bit_def mask_test)

lemma choose_inner_char:
  "set js \<subseteq> {0..<8} \<Longrightarrow>
   choose_inner mh key i js out =
     (if js = [] \<or> (i < length mh \<and> (\<forall>j\<in>set js. key_index mh (i * 8 + j) < length key))
      then Inr (out @ map (\<lambda>j. key ! key_index mh (i * 8 + j)) js)
      else Inl IndexError)"
proof (induction js arbitrary: out)
  case Nil
  then show ?case by simp
next
  case (Cons j js)
  then have j: "j < 8" and js: "set js \<subseteq> {0..<8}" by auto
  show ?case
    using Cons.IH [OF js] key_index_inner [OF j, of i mh]
    by (auto simp: getitem_def Let_def)
qed

lemma choose_outer_char:
  "choose_outer mh key is out =
     (if \<forall>i\<in>set is. i < length mh \<and> (\<forall>j<8. key_index mh (i * 8 + j) < length key)
      then Inr (out @ concat (map (\<lambda>i. map (\<lambda>j. key ! key_index mh (i * 8 + j)) [0..<8]) is))
      else Inl IndexError)"
proof (induction "is" arbitrary: out)
  case Nil
  then show ?case by simp
next
  case (Cons i "is")
  have inner: "choose_inner mh key i [0..<8] out =
     (if i < length mh \<and> (\<forall>j<8. key_index mh (i * 8 + j) < length key)
      then Inr (out @ map (\<lambda>j. key ! key_index mh (i * 8 + j)) [0..<8])
      else Inl IndexError)"
    by (subst choose_inner_char) auto
  show ?case
    by (simp add: inner Cons.IH del: upt_Suc)
qed

lemma concat_blocks: "concat (map (\<lambda>i. map (\<lambda>j. f (i * 8 + j)) [0..<8]) [0..<n]) = map f [0..<8 * n]"
proof (induction n)
  case 0
  then show ?case by simp
next
  case (Suc n)
  define g where "g = (\<lambda>i. map (\<lambda>j. f (i * 8 + j)) [0..<8])"
  have blk: "g n = map f [8 * n..<8 * n + 8]"
  proof -
    have "map (\<lambda>j. j + 8 * n) [0..<8] = [8 * n..<8 + 8 * n]" by (rule map_add_upt)
    then have "map f (map (\<lambda>j. j + 8 * n) [0..<8]) = map f [8 * n..<8 * n + 8]"
      by (simp only: add.commute)
    then show ?thesis unfolding g_def by (simp only: map_map comp_def add.commute mult.commute)
  qed
  have "8 * Suc n = 8 * n + 8" by simp
  then have split: "[0..<8 * Suc n] = [0..<8 * n] @ [8 * n..<8 * n + 8]"
    by (simp only: upt_add_eq_append [OF le0])
  have "concat (map g [0..<Suc n]) = concat (map g [0..<n]) @ g n" by simp
  also have "concat (map g [0..<n]) = map f [0..<8 * n]" using Suc unfolding g_def .
  finally have "concat (map g [0..<Suc n]) = map f [0..<8 * Suc n]"
    by (simp only: blk split map_append)
  then show ?case unfolding g_def .
qed

lemma all_blocks: "(\<forall>i<n. \<forall>j<8. P (i * 8 + j)) = (\<forall>k<8 * n. P (k::nat))"
proof
  assume h: "\<forall>i<n. \<forall>j<8. P (i * 8 + j)"
  show "\<forall>k<8 * n. P k"
  proof (intro allI impI)
    fix k assume "k < 8 * n"
    then have "k div 8 < n" "k mod 8 < 8" by auto
    with h have "P (k div 8 * 8 + k mod 8)" by blast
    then show "P k" by simp
  qed
next
  assume h: "\<forall>k<8 * n. P k"
  show "\<forall>i<n. \<forall>j<8. P (i * 8 + j)"
  proof (intro allI impI)
    fix i j :: nat assume "i < n" "j < 8"
    then have "i * 8 + j < 8 * n" by auto
    with h show "P (i * 8 + j)" by blast
  qed
qed

lemma all_lt_le: "(\<forall>i<n. i < (m::nat)) = (n \<le> m)"
proof
  assume h: "\<forall>i<n. i < m"
  show "n \<le> m"
  proof (cases n)
    case 0 then show ?thesis by simp
  next
    case (Suc k)
    then have "k < m" using h by simp
    then show ?thesis using Suc by simp
  qed
qed auto

lemma choose_outer_upt:
  "choose_outer mh key [0..<n] [] =
     (if n \<le> length mh \<and> (\<forall>k<8 * n. key_index mh k < length key)
      then Inr (map (\<lambda>k. key ! key_index mh k) [0..<8 * n])
      else Inl IndexError)"
proof -
  have "(\<forall>i\<in>set [0..<n]. i < length mh \<and> (\<forall>j<8. key_index mh (i * 8 + j) < length key))
        = ((\<forall>i<n. i < length mh) \<and> (\<forall>i<n. \<forall>j<8. key_index mh (i * 8 + j) < length key))"
    by auto
  also have "\<dots> = (n \<le> length mh \<and> (\<forall>k<8 * n. key_index mh k < length key))"
    by (simp only: all_lt_le all_blocks [of n "\<lambda>k. key_index mh k < length key"])
  finally have a: "(\<forall>i\<in>set [0..<n]. i < length mh \<and> (\<forall>j<8. key_index mh (i * 8 + j) < length key))
        = (n \<le> length mh \<and> (\<forall>k<8 * n. key_index mh k < length key))" .
  show ?thesis
    by (simp only: choose_outer_char a concat_blocks [of "\<lambda>k. key ! key_index mh k" n] append_Nil)
qed

lemma choose_key_elements_char:
  "choose_key_elements mh key =
     (if 32 \<le> length mh \<and> (\<forall>k<256. key_index mh k < length key)
      then Inr (map (\<lambda>k. key ! key_index mh k) [0..<256])
      else Inl IndexError)"
proof -
  have n: "max_message_length div 8 = 32" "8 * (32::nat) = 256"
    by (simp_all add: max_message_length_def)
  show ?thesis
    unfolding choose_key_elements_def n(1)
    by (simp only: choose_outer_upt n(2))
qed

lemma convert_bytes_to_bits_char:
  "convert_bytes_to_bits b = map (digest_bit b) [0..<8 * length b]"
proof -
  have "map (\<lambda>j. (b ! i) AND drop_bit j (128 :: byte) \<noteq> 0) [0..<8]
      = map (\<lambda>j. digest_bit b (i * 8 + j)) [0..<8]" for i
    by (rule map_cong) (simp_all add: digest_bit_def mask_test)
  then show ?thesis
    unfolding convert_bytes_to_bits_def by (simp only: concat_blocks)
qed

lemma length_convert_bytes_to_bits: "length (convert_bytes_to_bits b) = 8 * length b"
  by (simp only: convert_bytes_to_bits_char length_map length_upt diff_zero)

lemma nth_convert_bytes_to_bits:
  "k < 8 * length b \<Longrightarrow> convert_bytes_to_bits b ! k = digest_bit b k"
  by (simp only: convert_bytes_to_bits_char nth_map_upt add_0 diff_zero)

lemma key_index_bound: "key_index mh k \<le> 2 * k + 1"
  by (simp add: key_index_def)

text \<open>
  Claim C2. For a 32-byte digest, the derived bit sequence has \<open>max_message_length\<close> = 256
  entries; entry \<open>i\<close> is bit \<open>7 - i mod 8\<close> of byte \<open>i div 8\<close> (most significant bit first,
  bytes in the given order); and the selection, on a table with twice as many elements as
  there are bits, returns for each bit position \<open>i\<close> the element at index \<open>2 * i\<close> plus the bit.
\<close>

theorem bits_of_and_select:
  "length digest = 32 \<longrightarrow>
     length (convert_bytes_to_bits digest) = max_message_length \<and>
     (\<forall>i<max_message_length.
        convert_bytes_to_bits digest ! i = bit (digest ! (i div 8)) (7 - i mod 8)) \<and>
     (\<forall>key :: 'a list.
        length key = 2 * length (convert_bytes_to_bits digest) \<longrightarrow>
        choose_key_elements digest key =
          Inr (map (\<lambda>i. key ! (2 * i + (if convert_bytes_to_bits digest ! i then 1 else 0)))
                 [0..<max_message_length]))"
proof (intro impI conjI allI)
  assume len: "length digest = 32"
  show l: "length (convert_bytes_to_bits digest) = max_message_length"
    by (simp add: length_convert_bytes_to_bits len max_message_length_def)
  show "convert_bytes_to_bits digest ! i = bit (digest ! (i div 8)) (7 - i mod 8)"
    if "i < max_message_length" for i
    using that nth_convert_bytes_to_bits [of i digest]
    by (simp add: len max_message_length_def digest_bit_def)
  fix key :: "'a list"
  assume k: "length key = 2 * length (convert_bytes_to_bits digest)"
  then have lk: "length key = 512" by (simp add: l max_message_length_def)
  have idx: "\<forall>k<256. key_index digest k < length key"
  proof (intro allI impI)
    fix k :: nat assume "k < 256"
    then show "key_index digest k < length key"
      using key_index_bound [of digest k] lk by simp
  qed
  have "map (\<lambda>i. key ! (2 * i + (if convert_bytes_to_bits digest ! i then 1 else 0))) [0..<256]
      = map (\<lambda>k. key ! key_index digest k) [0..<256]"
    by (rule map_cong) (simp_all add: nth_convert_bytes_to_bits len key_index_def)
  then show "choose_key_elements digest key =
          Inr (map (\<lambda>i. key ! (2 * i + (if convert_bytes_to_bits digest ! i then 1 else 0)))
                 [0..<max_message_length])"
    using idx len by (simp add: choose_key_elements_char max_message_length_def)
qed

theorem bits_of_and_select_witness:
  "length (replicate 32 (170 :: byte)) = 32 \<and>
   length (convert_bytes_to_bits (replicate 32 170)) = max_message_length \<and>
   convert_bytes_to_bits (replicate 32 170) ! 0 = True \<and>
   convert_bytes_to_bits (replicate 32 170) ! 1 = False \<and>
   choose_key_elements (replicate 32 170) [0..<512] =
     Inr (map (\<lambda>i. [0..<512] ! (2 * i + (if convert_bytes_to_bits (replicate 32 170) ! i then 1 else 0)))
            [0..<max_message_length])"
proof -
  define d where "d = replicate 32 (170 :: byte)"
  have len: "length d = 32" by (simp add: d_def)
  note t = bits_of_and_select [of d, THEN mp, OF len]
  from t have A: "length (convert_bytes_to_bits d) = max_message_length"
    by (rule conjunct1)
  from t have B: "\<forall>i<max_message_length.
        convert_bytes_to_bits d ! i = bit (d ! (i div 8)) (7 - i mod 8)"
    by (rule conjunct2 [THEN conjunct1])
  from t have C: "\<forall>key :: nat list.
        length key = 2 * length (convert_bytes_to_bits d) \<longrightarrow>
        choose_key_elements d key =
          Inr (map (\<lambda>i. key ! (2 * i + (if convert_bytes_to_bits d ! i then 1 else 0)))
                 [0..<max_message_length])"
    by (rule conjunct2 [THEN conjunct2])
  have m: "0 < max_message_length" "1 < max_message_length"
    by (simp_all add: max_message_length_def)
  have "convert_bytes_to_bits d ! 0 = bit (d ! (0 div 8)) (7 - 0 mod 8)"
    using B m(1) by blast
  moreover have "bit (d ! (0 div 8)) (7 - 0 mod 8)"
    unfolding d_def by simp
  ultimately have b0: "convert_bytes_to_bits d ! 0 = True"
    by (simp only:)
  have "convert_bytes_to_bits d ! 1 = bit (d ! (1 div 8)) (7 - 1 mod 8)"
    using B m(2) by blast
  moreover have "\<not> bit (d ! (1 div 8)) (7 - 1 mod 8)"
    unfolding d_def by simp
  ultimately have b1: "convert_bytes_to_bits d ! 1 = False"
    by (simp only:)
  have k: "length [0..<512] = 2 * length (convert_bytes_to_bits d)"
    by (simp add: A max_message_length_def)
  have c: "choose_key_elements d [0..<512] =
          Inr (map (\<lambda>i. [0..<512] ! (2 * i + (if convert_bytes_to_bits d ! i then 1 else 0)))
                 [0..<max_message_length])"
    using C k by blast
  show ?thesis using len A b0 b1 c unfolding d_def by (intro conjI)
qed

section \<open>The Merkle root\<close>

lemma merkle_root_single: "merkle_root H (Suc depth) [x] = Inr x"
  by (simp add: getitem_def)

lemma merkle_root_empty: "merkle_root H depth [] = Inl RecursionError"
  by (induction depth) simp_all

lemma merkle_root_step:
  "length ls \<noteq> 1 \<Longrightarrow>
   merkle_root H depth (take (length ls div 2) ls) = Inr l \<Longrightarrow>
   merkle_root H depth (drop (length ls div 2) ls) = Inr r \<Longrightarrow>
   merkle_root H (Suc depth) ls = Inr (hash_bytes H (l @ r))"
  by simp

lemma merkle_root_returns:
  "ls \<noteq> [] \<Longrightarrow> length ls \<le> 2 ^ depth \<Longrightarrow> \<exists>r. merkle_root H (Suc depth) ls = Inr r"
proof (induction depth arbitrary: ls)
  case 0
  then have "length ls = 1" by (cases ls) auto
  then show ?case by (simp add: getitem_def)
next
  case (Suc depth)
  show ?case
  proof (cases "length ls = 1")
    case True
    then show ?thesis by (simp add: getitem_def)
  next
    case False
    have "0 < length ls" using Suc.prems(1) by simp
    with False have two: "2 \<le> length ls" by linarith
    let ?n = "length ls div 2"
    have "take ?n ls \<noteq> []" using two by auto
    moreover have "length (take ?n ls) \<le> 2 ^ depth" using Suc.prems(2) by auto
    ultimately obtain l where l: "merkle_root H (Suc depth) (take ?n ls) = Inr l"
      using Suc.IH by blast
    have "drop ?n ls \<noteq> []" using two by auto
    moreover have "length (drop ?n ls) \<le> 2 ^ depth" using Suc.prems(2) by auto
    ultimately obtain r where r: "merkle_root H (Suc depth) (drop ?n ls) = Inr r"
      using Suc.IH by blast
    show ?thesis using merkle_root_step [OF False l r] by blast
  qed
qed

lemma merkle_root_Suc:
  "merkle_root H depth ls = Inr r \<Longrightarrow> merkle_root H (Suc depth) ls = Inr r"
proof (induction depth arbitrary: ls r)
  case 0
  then show ?case by simp
next
  case (Suc depth)
  show ?case
  proof (cases "length ls = 1")
    case True
    then show ?thesis using Suc.prems by simp
  next
    case False
    let ?n = "length ls div 2"
    from Suc.prems False obtain l r' where
      l: "merkle_root H depth (take ?n ls) = Inr l" and
      r': "merkle_root H depth (drop ?n ls) = Inr r'" and
      r: "r = hash_bytes H (l @ r')"
      by (auto split: sum.splits)
    show ?thesis
      using merkle_root_step [OF False Suc.IH [OF l] Suc.IH [OF r']] r by simp
  qed
qed

lemma merkle_root_mono:
  "merkle_root H depth ls = Inr r \<Longrightarrow> depth \<le> depth' \<Longrightarrow> merkle_root H depth' ls = Inr r"
  by (induction depth') (auto simp: le_Suc_eq merkle_root_Suc simp del: merkle_root.simps)

text \<open>
  Claim C3. The root of a single-element list is that element, not hashed. For a list of
  at least two leaves the root is the hash of the roots of the two halves, concatenated,
  where the left half has \<open>length ls div 2\<close> leaves (the floor when the length is odd). The
  stack depth only decides whether the recursion completes: a result is the same at every
  greater depth.
\<close>

theorem merkle_root_equations:
  "merkle_root H (Suc depth) [x] = Inr x \<and>
   (2 \<le> length ls \<and> length ls \<le> 2 ^ depth \<longrightarrow>
      (\<exists>l r. merkle_root H depth (take (length ls div 2) ls) = Inr l \<and>
             merkle_root H depth (drop (length ls div 2) ls) = Inr r \<and>
             merkle_root H (Suc depth) ls = Inr (hash_bytes H (l @ r)))) \<and>
   (\<forall>root d d'. merkle_root H d ls = Inr root \<and> d \<le> d' \<longrightarrow>
      merkle_root H d' ls = Inr root)"
proof (intro conjI impI allI)
  show "merkle_root H (Suc depth) [x] = Inr x" by (rule merkle_root_single)
next
  assume a: "2 \<le> length ls \<and> length ls \<le> 2 ^ depth"
  let ?n = "length ls div 2"
  from a obtain d where d: "depth = Suc d" by (cases depth) auto
  have "take ?n ls \<noteq> []" using a by auto
  moreover have "length (take ?n ls) \<le> 2 ^ d" using a d by auto
  ultimately obtain l where l: "merkle_root H depth (take ?n ls) = Inr l"
    using merkle_root_returns d by blast
  have "drop ?n ls \<noteq> []" using a by auto
  moreover have "length (drop ?n ls) \<le> 2 ^ d" using a d by auto
  ultimately obtain r where r: "merkle_root H depth (drop ?n ls) = Inr r"
    using merkle_root_returns d by blast
  have "length ls \<noteq> 1" using a by simp
  from merkle_root_step [OF this l r] l r
  show "\<exists>l r. merkle_root H depth (take ?n ls) = Inr l \<and>
             merkle_root H depth (drop ?n ls) = Inr r \<and>
             merkle_root H (Suc depth) ls = Inr (hash_bytes H (l @ r))" by blast
next
  fix root d d'
  assume "merkle_root H d ls = Inr root \<and> d \<le> d'"
  then show "merkle_root H d' ls = Inr root" using merkle_root_mono by blast
qed

theorem merkle_root_equations_witness:
  "2 \<le> length [[1], [2 :: byte]] \<and> length [[1], [2 :: byte]] \<le> 2 ^ 1 \<and>
   merkle_root (\<lambda>b. b) (Suc 1) [[3]] = Inr [3] \<and>
   merkle_root (\<lambda>b. b) (Suc 1) [[1], [2]] = Inr [1, 2] \<and>
   merkle_root (\<lambda>b. b) 2 [[1], [2]] = Inr [1, 2] \<and> (2 :: nat) \<le> 3 \<and>
   merkle_root (\<lambda>b. b) 3 [[1], [2]] = Inr [1, 2]"
proof -
  note t = merkle_root_equations [of "\<lambda>b. b" 1 "[3]" "[[1], [2]]"]
  have h: "2 \<le> length [[1], [2 :: byte]] \<and> length [[1], [2 :: byte]] \<le> 2 ^ 1" by simp
  have a: "merkle_root (\<lambda>b. b) (Suc 1) [[3]] = Inr [3]" using t by blast
  have "\<exists>l r. merkle_root (\<lambda>b. b) 1 (take (length [[1], [2 :: byte]] div 2) [[1], [2]]) = Inr l \<and>
             merkle_root (\<lambda>b. b) 1 (drop (length [[1], [2 :: byte]] div 2) [[1], [2]]) = Inr r \<and>
             merkle_root (\<lambda>b. b) (Suc 1) [[1], [2]] = Inr (hash_bytes (\<lambda>b. b) (l @ r))"
    using t h by blast
  then have b: "merkle_root (\<lambda>b. b) (Suc 1) [[1], [2]] = Inr [1, 2]"
    by (auto simp: getitem_def hash_bytes_def)
  then have c: "merkle_root (\<lambda>b. b) 2 [[1], [2]] = Inr [1, 2]"
    by (simp only: numeral_2_eq_2 One_nat_def)
  have d: "(2 :: nat) \<le> 3" by simp
  have e: "merkle_root (\<lambda>b. b) 3 [[1], [2]] = Inr [1, 2]" using t c d by blast
  show ?thesis using h a b c d e by (intro conjI) blast+
qed

text \<open>
  Claim C6, as stated, fails: a list of three leaves is not rejected, whatever the hash.
\<close>

theorem merkle_root_unbalanced: "\<not> (\<exists>H e. merkle_root H 3 [[1], [2], [3]] = Inl e)"
  by (simp add: numeral_3_eq_3 getitem_def)

text \<open>
  Claim C6, amended. The power-of-two precondition is documented but not checked: for every
  non-empty list, of any length, \<open>merkle_root\<close> returns a root once the stack holds the
  recursion; for the empty list it fails with RecursionError.
\<close>

theorem merkle_root_unchecked:
  "(ls \<noteq> [] \<and> length ls \<le> 2 ^ depth \<longrightarrow> (\<exists>r. merkle_root H (Suc depth) ls = Inr r)) \<and>
   merkle_root H depth [] = Inl RecursionError"
  using merkle_root_returns merkle_root_empty by blast

theorem merkle_root_unchecked_witness:
  "[[1], [2], [3 :: byte]] \<noteq> [] \<and> length [[1], [2], [3 :: byte]] \<le> 2 ^ 2 \<and>
   (\<exists>r. merkle_root (\<lambda>b. b) (Suc 2) [[1], [2], [3]] = Inr r)"
  using merkle_root_unchecked [of "[[1], [2], [3]]" 2 "\<lambda>b. b"] by simp

section \<open>Facts about the library primitives\<close>

lemma map_raise_Inr: "(\<And>x. x \<in> set xs \<Longrightarrow> f x = Inr (g x)) \<Longrightarrow> map_raise f xs = Inr (map g xs)"
  by (induction xs) simp_all

lemma comprehension_Suc:
  "comprehension act (Suc n) s =
     (fst (act s) # fst (comprehension act n (snd (act s))),
      snd (comprehension act n (snd (act s))))"
  by (simp split: prod.splits)

lemma comprehension_length: "length (fst (comprehension act n s)) = n"
  by (induction n arbitrary: s) (simp_all add: comprehension_Suc del: comprehension.simps(2))

lemma comprehension_all:
  "(\<And>s. P (fst (act s))) \<Longrightarrow> x \<in> set (fst (comprehension act n s)) \<Longrightarrow> P x"
proof (induction n arbitrary: s)
  case 0
  then show ?case by simp
next
  case (Suc n)
  from Suc.prems(2) have "x = fst (act s) \<or> x \<in> set (fst (comprehension act n (snd (act s))))"
    by (simp add: comprehension_Suc del: comprehension.simps(2))
  then show ?case using Suc.IH Suc.prems(1) by blast
qed

lemma from_bytes_snoc: "from_bytes (bs @ [b]) = from_bytes bs * 256 + uint b"
  by (simp add: from_bytes_def)

lemma from_bytes_range: "0 \<le> from_bytes bs \<and> from_bytes bs < 256 ^ length bs"
proof (induction bs rule: rev_induct)
  case Nil
  then show ?case by (simp add: from_bytes_def)
next
  case (snoc b bs)
  have u: "0 \<le> uint b" "uint b < 256" using uint_bounded [of b] by simp_all
  from snoc have "from_bytes bs + 1 \<le> 256 ^ length bs" by simp
  then have "(from_bytes bs + 1) * 256 \<le> 256 ^ length bs * 256" by (rule mult_right_mono) simp
  then show ?case using snoc u by (simp add: from_bytes_snoc algebra_simps)
qed

lemma randbits_256_range:
  "0 \<le> fst (randbits rnd security_parameter pos) \<and>
   fst (randbits rnd security_parameter pos) < 2 ^ 256"
proof -
  have "fst (randbits rnd security_parameter pos) = from_bytes (map rnd [pos..<pos + 32])"
    by (simp add: randbits_def security_parameter_def token_bytes_def)
  moreover have "(256 :: int) ^ 32 = 2 ^ 256" by simp
  ultimately show ?thesis
    using from_bytes_range [of "map rnd [pos..<pos + 32]"] by simp
qed

lemma hash_key_element_char:
  "hash_key_element H n =
     (if 0 \<le> n \<and> n < 2 ^ 256 then Inr (H (be32 n)) else Inl OverflowError)"
  by (simp add: hash_key_element_def to_bytes_def security_parameter_def be32_def)

lemma to_bytes_zero: "to_bytes 0 32 = Inr (replicate 32 0)"
  by (simp add: to_bytes_def map_replicate_const)

section \<open>Facts about the naive and the short-private-key schemes\<close>

lemma hash_key_element_uint256:
  "hash_key_element H n = (if uint256 n then Inr (H (be32 n)) else Inl OverflowError)"
  unfolding uint256_def by (rule hash_key_element_char)

lemma randbits_uint256: "uint256 (fst (randbits rnd security_parameter pos))"
  unfolding uint256_def by (rule randbits_256_range)

lemma length_hash_message: "digest32 H \<Longrightarrow> length (hash_message H m) = 32"
  by (simp add: digest32_def hash_message_def)

lemma key_index_lt: "k < 256 \<Longrightarrow> 512 \<le> length key \<Longrightarrow> key_index mh k < length key"
  using key_index_bound [of mh k] by simp

lemma choose_key_elements_ok:
  assumes "32 \<le> length mh" and "512 \<le> length key"
  shows "choose_key_elements mh key = Inr (map (\<lambda>k. key ! key_index mh k) [0..<256])"
proof -
  have "\<forall>k<256. key_index mh k < length key"
    using key_index_lt [OF _ assms(2)] by blast
  with assms(1) have "(32 \<le> length mh \<and> (\<forall>k<256. key_index mh k < length key)) = True"
    by blast
  then show ?thesis by (simp only: choose_key_elements_char if_True)
qed

lemma choose_key_elements_short:
  assumes "length key \<le> 510"
  shows "choose_key_elements mh key = Inl IndexError"
proof -
  have "510 \<le> key_index mh 255" by (simp add: key_index_def)
  then have "\<not> key_index mh 255 < length key" using assms by simp
  moreover have "(255 :: nat) < 256" by simp
  ultimately have "(32 \<le> length mh \<and> (\<forall>k<256. key_index mh k < length key)) = False"
    by blast
  then show ?thesis by (simp only: choose_key_elements_char if_False)
qed

lemma map_raise_hash_key_element:
  assumes "\<forall>x\<in>set xs. uint256 x"
  shows "map_raise (hash_key_element H) xs = Inr (map (\<lambda>x. H (be32 x)) xs)"
  by (rule map_raise_Inr) (simp add: hash_key_element_uint256 assms)

lemma verify_signature_naive_char:
  assumes "digest32 H" and "512 \<le> length pk" and "\<forall>x\<in>set sig. uint256 x"
  shows "verify_signature_naive H m pk sig =
           Inr (map (\<lambda>k. pk ! key_index (hash_message H m) k) [0..<256] = map (\<lambda>x. H (be32 x)) sig)"
proof -
  have "32 \<le> length (hash_message H m)" using length_hash_message [OF assms(1)] by simp
  from choose_key_elements_ok [OF this assms(2)] map_raise_hash_key_element [OF assms(3)]
  show ?thesis by (simp add: verify_signature_naive_def)
qed

lemma verify_signature_short_priv_char:
  assumes "digest32 H" and "512 \<le> length pk"
  shows "verify_signature_short_priv H m pk sig =
           Inr (map (\<lambda>k. pk ! key_index (hash_message H m) k) [0..<256] = map H sig)"
proof -
  have "32 \<le> length (hash_message H m)" using length_hash_message [OF assms(1)] by simp
  from choose_key_elements_ok [OF this assms(2)]
  show ?thesis by (simp add: verify_signature_short_priv_def hash_bytes_def [abs_def])
qed

lemma selected_map:
  assumes "512 \<le> length key"
  shows "map (\<lambda>k. map f key ! key_index mh k) [0..<256] = map f (map (\<lambda>k. key ! key_index mh k) [0..<256])"
proof -
  have "map (\<lambda>k. map f key ! key_index mh k) [0..<256] = map (\<lambda>k. f (key ! key_index mh k)) [0..<256]"
    by (rule map_cong) (simp_all add: key_index_lt [OF _ assms])
  then show ?thesis by (simp only: map_map comp_def)
qed

lemma selected_subset:
  assumes "512 \<le> length key"
  shows "set (map (\<lambda>k. key ! key_index mh k) [0..<256]) \<subseteq> set key"
proof
  fix x assume "x \<in> set (map (\<lambda>k. key ! key_index mh k) [0..<256])"
  then obtain k where "k < 256" "x = key ! key_index mh k" by auto
  then show "x \<in> set key" using key_index_lt [OF _ assms] nth_mem by blast
qed

lemma naive_round_trip:
  assumes H: "digest32 H" and len: "length sk = 512" and rng: "\<forall>x\<in>set sk. uint256 x"
  shows "\<exists>pk sig. generate_public_key_naive H sk = Inr pk \<and>
                 sign_message_naive H m sk = Inr sig \<and>
                 verify_signature_naive H m pk sig = Inr True"
proof -
  let ?mh = "hash_message H m"
  let ?pk = "map (\<lambda>x. H (be32 x)) sk"
  let ?sig = "map (\<lambda>k. sk ! key_index ?mh k) [0..<256]"
  have l: "512 \<le> length sk" "512 \<le> length ?pk" using len by simp_all
  have mh: "32 \<le> length ?mh" using length_hash_message [OF H] by simp
  have pk: "generate_public_key_naive H sk = Inr ?pk"
    unfolding generate_public_key_naive_def by (rule map_raise_hash_key_element [OF rng])
  have sg: "sign_message_naive H m sk = Inr ?sig"
    unfolding sign_message_naive_def Let_def by (rule choose_key_elements_ok [OF mh l(1)])
  have "\<forall>x\<in>set ?sig. uint256 x"
    using selected_subset [OF l(1), of ?mh] rng by blast
  from verify_signature_naive_char [OF H l(2) this, of m]
  have "verify_signature_naive H m ?pk ?sig = Inr True"
    by (simp only: selected_map [OF l(1)] simp_thms)
  with pk sg show ?thesis by blast
qed

lemma short_priv_round_trip_expanded:
  assumes H: "digest32 H" and len: "length sk = 512"
  shows "verify_signature_short_priv H m (map (hash_bytes H) sk)
           (map (\<lambda>k. sk ! key_index (hash_message H m) k) [0..<256]) = Inr True"
proof -
  have l: "512 \<le> length sk" "512 \<le> length (map (hash_bytes H) sk)" using len by simp_all
  from verify_signature_short_priv_char [OF H l(2), of m]
  show ?thesis
    by (simp only: selected_map [OF l(1)] hash_bytes_def [abs_def] simp_thms)
qed

lemma generate_private_key_naive_wf:
  "length (fst (generate_private_key_naive rnd pos)) = 512 \<and>
   (\<forall>x\<in>set (fst (generate_private_key_naive rnd pos)). uint256 x)"
proof -
  have "length (fst (generate_private_key_naive rnd pos)) = 2 * max_message_length"
    unfolding generate_private_key_naive_def by (rule comprehension_length)
  moreover have "uint256 x" if "x \<in> set (fst (generate_private_key_naive rnd pos))" for x
    using that unfolding generate_private_key_naive_def
    by (rule comprehension_all [rotated]) (rule randbits_uint256)
  ultimately show ?thesis by (simp add: max_message_length_def)
qed

lemma naive_keypair_round_trip:
  assumes H: "digest32 H"
  shows "\<exists>pk sk sig pos'. generate_keypair_naive H rnd pos = (Inr (pk, sk), pos') \<and>
           sign_message_naive H m sk = Inr sig \<and>
           verify_signature_naive H m pk sig = Inr True"
proof -
  obtain sk pos' where g: "generate_private_key_naive rnd pos = (sk, pos')"
    by (cases "generate_private_key_naive rnd pos")
  with generate_private_key_naive_wf [of rnd pos]
  have wf: "length sk = 512" "\<forall>x\<in>set sk. uint256 x" by simp_all
  from naive_round_trip [OF H wf, of m] obtain pk sig where
    p: "generate_public_key_naive H sk = Inr pk" and
    s: "sign_message_naive H m sk = Inr sig" and
    v: "verify_signature_naive H m pk sig = Inr True" by blast
  have "generate_keypair_naive H rnd pos = (Inr (pk, sk), pos')"
    by (simp add: generate_keypair_naive_def g p)
  with s v show ?thesis by blast
qed

section \<open>Facts about private key expansion\<close>

text \<open>Encrypting zero bytes returns the keystream itself.\<close>

lemma update_zero:
  "update ks (replicate n 0) enc =
     (map (\<lambda>j. ks (enc_key enc) (enc_nonce enc) (enc_pos enc + j)) [0..<n],
      enc\<lparr>enc_pos := enc_pos enc + n\<rparr>)"
  by (simp add: update_def)

lemma expand_loop:
  "fst (comprehension (update ks (replicate n 0)) c enc) =
     map (\<lambda>i. map (\<lambda>j. ks (enc_key enc) (enc_nonce enc) (enc_pos enc + n * i + j)) [0..<n]) [0..<c]"
proof (induction c arbitrary: enc)
  case 0
  then show ?case by simp
next
  case (Suc c)
  let ?enc' = "enc\<lparr>enc_pos := enc_pos enc + n\<rparr>"
  have "fst (comprehension (update ks (replicate n 0)) (Suc c) enc) =
        map (\<lambda>j. ks (enc_key enc) (enc_nonce enc) (enc_pos enc + j)) [0..<n]
        # fst (comprehension (update ks (replicate n 0)) c ?enc')"
    by (simp add: comprehension_Suc update_zero del: comprehension.simps(2))
  also have "fst (comprehension (update ks (replicate n 0)) c ?enc') =
        map (\<lambda>i. map (\<lambda>j. ks (enc_key enc) (enc_nonce enc) (enc_pos enc + n * Suc i + j)) [0..<n]) [0..<c]"
    by (simp add: Suc.IH add.assoc)
  also have "\<dots> = map (\<lambda>i. map (\<lambda>j. ks (enc_key enc) (enc_nonce enc) (enc_pos enc + n * i + j)) [0..<n]) (map Suc [0..<c])"
    by (simp only: map_map comp_def)
  finally show ?case
    by (simp only: map_Suc_upt upt_conv_Cons [of 0 "Suc c"] list.map) simp
qed

text \<open>The expanded key of a seed: block \<open>i\<close> is the keystream from offset \<open>32 * i\<close>.\<close>

lemma expand_private_key_char:
  "expand_private_key ks sk =
     (case sk ''key'' of
        None \<Rightarrow> Inl KeyError
      | Some k \<Rightarrow>
          if length k \<noteq> 32 then Inl ValueError
          else (case sk ''nonce'' of
                  None \<Rightarrow> Inl KeyError
                | Some n \<Rightarrow>
                    if length n \<noteq> 16 then Inl ValueError
                    else Inr (map (\<lambda>i. map (\<lambda>j. ks k n (32 * i + j)) [0..<32]) [0..<512])))"
proof -
  have "fst (comprehension (update ks (replicate 32 0)) 512 (new_encryptor (k, n))) =
        map (\<lambda>i. map (\<lambda>j. ks k n (32 * i + j)) [0..<32]) [0..<512]" for k n
    by (simp only: expand_loop) (simp add: new_encryptor_def)
  then show ?thesis
    by (simp add: expand_private_key_def subscript_def AES256_def Cipher_def to_bytes_zero
        max_message_length_def split: option.splits)
qed

lemma generate_private_key_short_priv_wf:
  "\<exists>k n. fst (generate_private_key_short_priv rnd pos) ''key'' = Some k \<and>
         fst (generate_private_key_short_priv rnd pos) ''nonce'' = Some n \<and>
         length k = 32 \<and> length n = 16"
  by (simp add: generate_private_key_short_priv_def token_bytes_def security_parameter_def)

lemma expand_private_key_seed:
  assumes "sk ''key'' = Some k" and "sk ''nonce'' = Some n" and "length k = 32" and "length n = 16"
  shows "expand_private_key ks sk =
           Inr (map (\<lambda>i. map (\<lambda>j. ks k n (32 * i + j)) [0..<32]) [0..<512])"
  by (simp add: expand_private_key_char assms)

lemma short_priv_keypair_round_trip:
  assumes H: "digest32 H"
  shows "\<exists>pk sk sig pos'. generate_keypair_short_priv ks H rnd pos = (Inr (pk, sk), pos') \<and>
           sign_message_short_priv ks H m sk = Inr sig \<and>
           verify_signature_short_priv H m pk sig = Inr True"
proof -
  obtain sk pos' where g: "generate_private_key_short_priv rnd pos = (sk, pos')"
    by (cases "generate_private_key_short_priv rnd pos")
  with generate_private_key_short_priv_wf [of rnd pos] obtain k n where
    seed: "sk ''key'' = Some k" "sk ''nonce'' = Some n" "length k = 32" "length n = 16"
    by auto
  define ex where "ex = map (\<lambda>i. map (\<lambda>j. ks k n (32 * i + j)) [0..<32]) [0..<512]"
  have e: "expand_private_key ks sk = Inr ex"
    unfolding ex_def by (rule expand_private_key_seed [OF seed])
  have len: "length ex = 512" by (simp add: ex_def)
  have mh: "32 \<le> length (hash_message H m)" using length_hash_message [OF H] by simp
  let ?sig = "map (\<lambda>k. ex ! key_index (hash_message H m) k) [0..<256]"
  have p: "generate_public_key_short_priv ks H sk = Inr (map (hash_bytes H) ex)"
    by (simp add: generate_public_key_short_priv_def e)
  have "choose_key_elements (hash_message H m) ex = Inr ?sig"
    by (rule choose_key_elements_ok [OF mh]) (simp add: len)
  then have s: "sign_message_short_priv ks H m sk = Inr ?sig"
    by (simp add: sign_message_short_priv_def e)
  have "generate_keypair_short_priv ks H rnd pos = (Inr (map (hash_bytes H) ex, sk), pos')"
    by (simp add: generate_keypair_short_priv_def g p)
  with s short_priv_round_trip_expanded [OF H len, of m] show ?thesis by blast
qed

text \<open>
  Claim C5. The expansion, and with it the signature, depends on the private key only
  through its entries \<open>'key'\<close> and \<open>'nonce'\<close>: two dictionaries that agree on them give the
  same expansion (or the same error) and the same signature of a message. Every call
  starts a new encryptor at offset 0, so for a 32-byte key and a 16-byte nonce the result
  is always the same 512 blocks: block \<open>i\<close> holds the 32 keystream bytes from offset
  \<open>32 * i\<close>.
\<close>

theorem expansion_deterministic:
  "(sk1 ''key'' = sk2 ''key'' \<and> sk1 ''nonce'' = sk2 ''nonce'' \<longrightarrow>
      expand_private_key ks sk1 = expand_private_key ks sk2 \<and>
      sign_message_short_priv ks H m sk1 = sign_message_short_priv ks H m sk2) \<and>
   (sk ''key'' = Some k \<and> sk ''nonce'' = Some n \<and> length k = 32 \<and> length n = 16 \<longrightarrow>
      expand_private_key ks sk =
        Inr (map (\<lambda>i. map (\<lambda>j. ks k n (32 * i + j)) [0..<32]) [0..<2 * max_message_length]) \<and>
      sign_message_short_priv ks H m sk =
        choose_key_elements (hash_message H m)
          (map (\<lambda>i. map (\<lambda>j. ks k n (32 * i + j)) [0..<32]) [0..<2 * max_message_length]))"
proof (intro conjI impI)
  assume a: "sk1 ''key'' = sk2 ''key'' \<and> sk1 ''nonce'' = sk2 ''nonce''"
  then show e: "expand_private_key ks sk1 = expand_private_key ks sk2"
    by (simp only: expand_private_key_char)
  then show "sign_message_short_priv ks H m sk1 = sign_message_short_priv ks H m sk2"
    by (simp only: sign_message_short_priv_def)
next
  assume a: "sk ''key'' = Some k \<and> sk ''nonce'' = Some n \<and> length k = 32 \<and> length n = 16"
  have n: "2 * max_message_length = 512" by (simp add: max_message_length_def)
  show e: "expand_private_key ks sk =
        Inr (map (\<lambda>i. map (\<lambda>j. ks k n (32 * i + j)) [0..<32]) [0..<2 * max_message_length])"
    unfolding n using a expand_private_key_seed by blast
  show "sign_message_short_priv ks H m sk =
        choose_key_elements (hash_message H m)
          (map (\<lambda>i. map (\<lambda>j. ks k n (32 * i + j)) [0..<32]) [0..<2 * max_message_length])"
    by (simp add: sign_message_short_priv_def e)
qed

theorem expansion_deterministic_witness:
  "[''key'' \<mapsto> replicate 32 (1 :: byte), ''nonce'' \<mapsto> replicate 16 2] ''key''
     = [''key'' \<mapsto> replicate 32 1, ''nonce'' \<mapsto> replicate 16 2, ''note'' \<mapsto> []] ''key'' \<and>
   [''key'' \<mapsto> replicate 32 (1 :: byte), ''nonce'' \<mapsto> replicate 16 2] ''nonce''
     = [''key'' \<mapsto> replicate 32 1, ''nonce'' \<mapsto> replicate 16 2, ''note'' \<mapsto> []] ''nonce'' \<and>
   [''key'' \<mapsto> replicate 32 (1 :: byte), ''nonce'' \<mapsto> replicate 16 2]
     \<noteq> [''key'' \<mapsto> replicate 32 1, ''nonce'' \<mapsto> replicate 16 2, ''note'' \<mapsto> []] \<and>
   expand_private_key (\<lambda>k n i. of_nat i) [''key'' \<mapsto> replicate 32 1, ''nonce'' \<mapsto> replicate 16 2]
     = expand_private_key (\<lambda>k n i. of_nat i)
         [''key'' \<mapsto> replicate 32 1, ''nonce'' \<mapsto> replicate 16 2, ''note'' \<mapsto> []] \<and>
   sign_message_short_priv (\<lambda>k n i. of_nat i) (\<lambda>b. take 32 (b @ replicate 32 0)) ''Hello, world!''
       [''key'' \<mapsto> replicate 32 1, ''nonce'' \<mapsto> replicate 16 2]
     = sign_message_short_priv (\<lambda>k n i. of_nat i) (\<lambda>b. take 32 (b @ replicate 32 0)) ''Hello, world!''
         [''key'' \<mapsto> replicate 32 1, ''nonce'' \<mapsto> replicate 16 2, ''note'' \<mapsto> []] \<and>
   length (replicate 32 (1 :: byte)) = 32 \<and> length (replicate 16 (2 :: byte)) = 16 \<and>
   expand_private_key (\<lambda>k n i. of_nat i) [''key'' \<mapsto> replicate 32 1, ''nonce'' \<mapsto> replicate 16 2]
     = Inr (map (\<lambda>i. map (\<lambda>j. of_nat (32 * i + j)) [0..<32]) [0..<2 * max_message_length])"
proof -
  define sk1 :: py_dict where "sk1 = [''key'' \<mapsto> replicate 32 1, ''nonce'' \<mapsto> replicate 16 2]"
  define sk2 :: py_dict where
    "sk2 = [''key'' \<mapsto> replicate 32 1, ''nonce'' \<mapsto> replicate 16 2, ''note'' \<mapsto> []]"
  define ks :: keystream where "ks = (\<lambda>k n i. of_nat i)"
  define H :: hash where "H = (\<lambda>b. take 32 (b @ replicate 32 0))"
  have a: "sk1 ''key'' = sk2 ''key''" "sk1 ''nonce'' = sk2 ''nonce''"
    by (simp_all add: sk1_def sk2_def)
  have d: "sk1 \<noteq> sk2"
  proof
    assume "sk1 = sk2"
    then have "sk1 ''note'' = sk2 ''note''" by simp
    then show False by (simp add: sk1_def sk2_def)
  qed
  have b: "sk1 ''key'' = Some (replicate 32 1)" "sk1 ''nonce'' = Some (replicate 16 2)"
    "length (replicate 32 (1 :: byte)) = 32" "length (replicate 16 (2 :: byte)) = 16"
    by (simp_all add: sk1_def)
  note t = expansion_deterministic [of sk1 sk2 ks H "''Hello, world!''" sk1 "replicate 32 1" "replicate 16 2"]
  have c1: "expand_private_key ks sk1 = expand_private_key ks sk2"
    and c2: "sign_message_short_priv ks H ''Hello, world!'' sk1
             = sign_message_short_priv ks H ''Hello, world!'' sk2"
    using t a by blast+
  have c3: "expand_private_key ks sk1 =
        Inr (map (\<lambda>i. map (\<lambda>j. ks (replicate 32 1) (replicate 16 2) (32 * i + j)) [0..<32])
               [0..<2 * max_message_length])"
    using t b by blast
  show ?thesis
    using a d c1 c2 b(3,4) c3 unfolding sk1_def sk2_def ks_def H_def by (intro conjI)
qed

section \<open>Facts about the short-public-key scheme\<close>

text \<open>A function with 32-byte digests, for concrete instances: pad or cut to 32 bytes.\<close>

lemma digest32_pad: "digest32 (\<lambda>b. take 32 (b @ replicate 32 0))"
  by (simp add: digest32_def min_def)

lemma sign_loop_step:
  "sign_loop H bits sk (i # is) sig =
     (if i < length bits \<and> 2 * i + 1 < length sk
      then sign_loop H bits sk is (sig @ signed_pair H bits sk i)
      else Inl IndexError)"
  by (simp add: getitem_def signed_pair_def hash_bytes_def)

lemma sign_loop_char:
  "sign_loop H bits sk is sig =
     (if \<forall>i\<in>set is. i < length bits \<and> 2 * i + 1 < length sk
      then Inr (sig @ concat (map (signed_pair H bits sk) is))
      else Inl IndexError)"
proof (induction "is" arbitrary: sig)
  case Nil
  then show ?case by simp
next
  case (Cons i "is")
  show ?case
    by (simp add: Cons.IH sign_loop_step del: sign_loop.simps)
qed

lemma concat_pairs_length:
  "(\<And>i. length (f i) = 2) \<Longrightarrow> length (concat (map f [0..<n])) = 2 * n"
  by (induction n) simp_all

lemma concat_pairs_nth:
  assumes "\<And>i. length (f i) = 2" and "i < n"
  shows "concat (map f [0..<n]) ! (2 * i) = f i ! 0 \<and> concat (map f [0..<n]) ! (2 * i + 1) = f i ! 1"
  using assms(2)
proof (induction n)
  case 0
  then show ?case by simp
next
  case (Suc n)
  have l: "length (concat (map f [0..<n])) = 2 * n" by (rule concat_pairs_length [OF assms(1)])
  show ?case
  proof (cases "i < n")
    case True
    then show ?thesis using Suc.IH l by (simp add: nth_append)
  next
    case False
    with Suc.prems have "i = n" by simp
    then show ?thesis using l by (simp add: nth_append)
  qed
qed

lemma length_signed_pair: "length (signed_pair H bits sk i) = 2"
  by (simp add: signed_pair_def)

lemma sign_message_short_pub_char:
  assumes H: "digest32 H"
  shows "sign_message_short_pub H m sk =
           (if 512 \<le> length sk
            then Inr (concat (map (signed_pair H (convert_bytes_to_bits (hash_message H m)) sk) [0..<256]))
            else Inl IndexError)"
proof -
  let ?bits = "convert_bytes_to_bits (hash_message H m)"
  have lb: "length ?bits = 256"
    by (simp add: length_convert_bytes_to_bits length_hash_message [OF H])
  have "(\<forall>i\<in>set [0..<256]. i < length ?bits \<and> 2 * i + 1 < length sk) = (512 \<le> length sk)"
  proof
    assume "\<forall>i\<in>set [0..<256]. i < length ?bits \<and> 2 * i + 1 < length sk"
    moreover have "(255 :: nat) \<in> set [0..<256]" by simp
    ultimately have "2 * 255 + 1 < length sk" by blast
    then show "512 \<le> length sk" by simp
  next
    assume "512 \<le> length sk"
    then show "\<forall>i\<in>set [0..<256]. i < length ?bits \<and> 2 * i + 1 < length sk"
      using lb by auto
  qed
  then show ?thesis
    unfolding sign_message_short_pub_def Let_def lb sign_loop_char by (simp only: append_Nil)
qed


lemma signed_pair_nth:
  "signed_pair H bits sk i ! 0 = (if bits ! i then H (sk ! (2 * i)) else sk ! (2 * i)) \<and>
   signed_pair H bits sk i ! 1 = (if bits ! i then sk ! (2 * i + 1) else H (sk ! (2 * i + 1)))"
  by (simp add: signed_pair_def)

lemma signature_nth:
  assumes "i < n"
  shows "concat (map (signed_pair H bits sk) [0..<n]) ! (2 * i)
           = (if bits ! i then H (sk ! (2 * i)) else sk ! (2 * i)) \<and>
         concat (map (signed_pair H bits sk) [0..<n]) ! (2 * i + 1)
           = (if bits ! i then sk ! (2 * i + 1) else H (sk ! (2 * i + 1)))"
  using concat_pairs_nth [of "signed_pair H bits sk" i n, OF length_signed_pair assms]
  by (simp only: signed_pair_nth)

lemma signature_length: "length (concat (map (signed_pair H bits sk) [0..<n])) = 2 * n"
  by (rule concat_pairs_length [OF length_signed_pair])

text \<open>
  Claim C4. In the short-public-key scheme, for a private key of 512 elements, signing
  returns a signature of \<open>2 * max_message_length\<close> = 512 elements; at each of the 256 bit
  positions \<open>i\<close> the position of the chosen branch (\<open>2 * i\<close> when the bit is 0, \<open>2 * i + 1\<close>
  when it is 1) holds the private-key element itself and the other position holds the
  hash of the other private-key element.
\<close>

theorem sign_short_pub_layout:
  "digest32 H \<and> length sk = 2 * max_message_length \<longrightarrow>
     (\<exists>sig. sign_message_short_pub H m sk = Inr sig \<and>
        length sig = 2 * max_message_length \<and>
        (\<forall>i<max_message_length.
           if convert_bytes_to_bits (hash_message H m) ! i
           then sig ! (2 * i + 1) = sk ! (2 * i + 1) \<and> sig ! (2 * i) = hash_bytes H (sk ! (2 * i))
           else sig ! (2 * i) = sk ! (2 * i) \<and> sig ! (2 * i + 1) = hash_bytes H (sk ! (2 * i + 1))))"
proof
  assume a: "digest32 H \<and> length sk = 2 * max_message_length"
  let ?bits = "convert_bytes_to_bits (hash_message H m)"
  let ?sig = "concat (map (signed_pair H ?bits sk) [0..<256])"
  have n: "max_message_length = 256" by (simp add: max_message_length_def)
  from a have "512 \<le> length sk" by (simp add: n)
  then have s: "sign_message_short_pub H m sk = Inr ?sig"
    using a by (simp add: sign_message_short_pub_char)
  have l: "length ?sig = 2 * max_message_length" unfolding n by (rule signature_length)
  have "\<forall>i<max_message_length.
           if ?bits ! i
           then ?sig ! (2 * i + 1) = sk ! (2 * i + 1) \<and> ?sig ! (2 * i) = hash_bytes H (sk ! (2 * i))
           else ?sig ! (2 * i) = sk ! (2 * i) \<and> ?sig ! (2 * i + 1) = hash_bytes H (sk ! (2 * i + 1))"
    unfolding n using signature_nth [of _ 256 H ?bits sk] by (simp add: hash_bytes_def)
  with s l show "\<exists>sig. sign_message_short_pub H m sk = Inr sig \<and>
        length sig = 2 * max_message_length \<and>
        (\<forall>i<max_message_length.
           if ?bits ! i
           then sig ! (2 * i + 1) = sk ! (2 * i + 1) \<and> sig ! (2 * i) = hash_bytes H (sk ! (2 * i))
           else sig ! (2 * i) = sk ! (2 * i) \<and> sig ! (2 * i + 1) = hash_bytes H (sk ! (2 * i + 1)))"
    by blast
qed

theorem sign_short_pub_layout_witness:
  "digest32 (\<lambda>b. take 32 (b @ replicate 32 0)) \<and>
   length (map (\<lambda>i. [of_nat i]) [0..<512] :: bytes list) = 2 * max_message_length \<and>
   (\<exists>sig. sign_message_short_pub (\<lambda>b. take 32 (b @ replicate 32 0)) ''Hello, world!''
            (map (\<lambda>i. [of_nat i]) [0..<512]) = Inr sig \<and>
      length sig = 2 * max_message_length)"
proof -
  have a: "digest32 (\<lambda>b. take 32 (b @ replicate 32 0))" by (rule digest32_pad)
  have b: "length (map (\<lambda>i. [of_nat i]) [0..<512] :: bytes list) = 2 * max_message_length"
    by (simp add: max_message_length_def)
  from sign_short_pub_layout [of "\<lambda>b. take 32 (b @ replicate 32 0)"
      "map (\<lambda>i. [of_nat i]) [0..<512]" "''Hello, world!''"] a b
  show ?thesis by blast
qed

section \<open>Facts about verification in the short-public-key scheme\<close>

lemma verify_loop_step:
  "verify_loop H bits r (i # is) h =
     (if i < length bits \<and> promoted_index bits i < length (h ! r)
      then verify_loop H bits r is
             (h[r := (h ! r)[promoted_index bits i := H ((h ! r) ! promoted_index bits i)]])
      else (Inl IndexError, h))"
  by (simp add: getitem_def heap_getitem_def heap_setitem_def promoted_index_def hash_bytes_def)

lemma verify_loop_frame:
  "length (snd (verify_loop H bits r is h)) = length h \<and>
   (\<forall>r'. r' \<noteq> r \<longrightarrow> snd (verify_loop H bits r is h) ! r' = h ! r')"
proof (induction "is" arbitrary: h)
  case Nil
  then show ?case by simp
next
  case (Cons i "is")
  show ?case
    by (simp add: verify_loop_step Cons.IH del: verify_loop.simps)
qed

lemma promote_length: "length (promote H bits is xs) = length xs"
  by (induction "is" arbitrary: xs) simp_all

lemma verify_loop_ok:
  assumes "r < length h"
    and "\<forall>i\<in>set is. i < length bits \<and> promoted_index bits i < length (h ! r)"
  shows "verify_loop H bits r is h = (Inr (), h[r := promote H bits is (h ! r)])"
  using assms
proof (induction "is" arbitrary: h)
  case Nil
  then show ?case by simp
next
  case (Cons i "is")
  let ?h' = "h[r := (h ! r)[promoted_index bits i := H ((h ! r) ! promoted_index bits i)]]"
  have r': "r < length ?h'" using Cons.prems(1) by simp
  have v: "?h' ! r = (h ! r)[promoted_index bits i := H ((h ! r) ! promoted_index bits i)]"
    using Cons.prems(1) by simp
  have c: "\<forall>i\<in>set is. i < length bits \<and> promoted_index bits i < length (?h' ! r)"
    using Cons.prems(2) by (simp add: v)
  have "verify_loop H bits r (i # is) h = verify_loop H bits r is ?h'"
    using Cons.prems(2) by (simp add: verify_loop_step del: verify_loop.simps)
  also have "\<dots> = (Inr (), ?h'[r := promote H bits is (?h' ! r)])"
    by (rule Cons.IH [OF r' c])
  also have "?h'[r := promote H bits is (?h' ! r)] = h[r := promote H bits (i # is) (h ! r)]"
    by (simp add: v)
  finally show ?case .
qed

lemma verify_loop_fail:
  assumes "r < length h"
    and "\<not> (\<forall>i\<in>set is. i < length bits \<and> promoted_index bits i < length (h ! r))"
  shows "fst (verify_loop H bits r is h) = Inl IndexError"
  using assms
proof (induction "is" arbitrary: h)
  case Nil
  then show ?case by simp
next
  case (Cons i "is")
  let ?h' = "h[r := (h ! r)[promoted_index bits i := H ((h ! r) ! promoted_index bits i)]]"
  show ?case
  proof (cases "i < length bits \<and> promoted_index bits i < length (h ! r)")
    case True
    have r': "r < length ?h'" using Cons.prems(1) by simp
    have l: "length (?h' ! r) = length (h ! r)" using Cons.prems(1) by simp
    have c: "\<not> (\<forall>i\<in>set is. i < length bits \<and> promoted_index bits i < length (?h' ! r))"
      using Cons.prems(2) True by (simp add: l)
    have "verify_loop H bits r (i # is) h = verify_loop H bits r is ?h'"
      using True by (simp add: verify_loop_step del: verify_loop.simps)
    then show ?thesis using Cons.IH [OF r' c] by simp
  next
    case False
    then show ?thesis by (auto simp add: verify_loop_step simp del: verify_loop.simps)
  qed
qed

lemma promoted_index_div: "promoted_index bits i div 2 = i"
  by (simp add: promoted_index_def)

lemma promote_nth:
  assumes "distinct is" and "j < length xs"
  shows "promote H bits is xs ! j =
           (if j \<in> promoted_index bits ` set is then H (xs ! j) else xs ! j)"
  using assms
proof (induction "is" arbitrary: xs)
  case Nil
  then show ?case by simp
next
  case (Cons i "is")
  let ?p = "promoted_index bits i"
  let ?xs' = "xs[?p := H (xs ! ?p)]"
  have d: "distinct is" and ni: "i \<notin> set is" using Cons.prems(1) by simp_all
  have fresh: "?p \<notin> promoted_index bits ` set is"
  proof
    assume "?p \<in> promoted_index bits ` set is"
    then obtain i' where "i' \<in> set is" "promoted_index bits i' = ?p" by auto
    then have "i' = i" using promoted_index_div [of bits i] promoted_index_div [of bits i'] by simp
    with \<open>i' \<in> set is\<close> ni show False by simp
  qed
  have j': "j < length ?xs'" using Cons.prems(2) by simp
  have "promote H bits (i # is) xs ! j = promote H bits is ?xs' ! j" by simp
  also have "\<dots> = (if j \<in> promoted_index bits ` set is then H (?xs' ! j) else ?xs' ! j)"
    by (rule Cons.IH [OF d j'])
  finally show ?case
    using fresh Cons.prems(2) by (cases "j = ?p") auto
qed

lemma verify_short_pub_frame:
  "length (snd (verify_signature_short_pub H depth m pk r h)) = Suc (length h) \<and>
   take (length h) (snd (verify_signature_short_pub H depth m pk r h)) = h"
proof -
  let ?bits = "convert_bytes_to_bits (hash_message H m)"
  let ?h1 = "h @ [h ! r]"
  let ?v = "verify_loop H ?bits (length h) [0..<length ?bits] ?h1"
  have s: "snd (verify_signature_short_pub H depth m pk r h) = snd ?v"
    by (simp add: verify_signature_short_pub_def list_copy_def Let_def
        split: prod.splits sum.splits)
  from verify_loop_frame [of H ?bits "length h" "[0..<length ?bits]" ?h1]
  have l: "length (snd ?v) = Suc (length h)"
    and f: "\<forall>r'. r' \<noteq> length h \<longrightarrow> snd ?v ! r' = ?h1 ! r'" by simp_all
  have "take (length h) (snd ?v) = h"
  proof (rule nth_equalityI)
    show "length (take (length h) (snd ?v)) = length h" using l by simp
  next
    fix i assume "i < length (take (length h) (snd ?v))"
    then have i: "i < length h" by simp
    then have "snd ?v ! i = ?h1 ! i" using f by simp
    then show "take (length h) (snd ?v) ! i = h ! i" using i by (simp add: nth_append)
  qed
  with l s show ?thesis by simp
qed

lemma verify_short_pub_char:
  assumes H: "digest32 H"
  shows "fst (verify_signature_short_pub H depth m pk r h) =
     (if \<forall>i<256. promoted_index (convert_bytes_to_bits (hash_message H m)) i < length (h ! r)
      then (case merkle_root H depth
                  (promote H (convert_bytes_to_bits (hash_message H m)) [0..<256] (h ! r)) of
              Inl e \<Rightarrow> Inl e
            | Inr root \<Rightarrow> Inr (pk = root))
      else Inl IndexError)"
proof -
  let ?bits = "convert_bytes_to_bits (hash_message H m)"
  let ?h1 = "h @ [h ! r]"
  let ?v = "verify_loop H ?bits (length h) [0..<256] ?h1"
  have lb: "length ?bits = 256"
    by (simp add: length_convert_bytes_to_bits length_hash_message [OF H])
  have a: "length h < length ?h1" by simp
  have c: "?h1 ! length h = h ! r" by simp
  have u: "verify_signature_short_pub H depth m pk r h =
      (case ?v of
         (Inl e, h2) \<Rightarrow> (Inl e, h2)
       | (Inr u, h2) \<Rightarrow>
           (case merkle_root H depth (h2 ! length h) of
              Inl e \<Rightarrow> (Inl e, h2)
            | Inr root \<Rightarrow> (Inr (pk = root), h2)))"
    by (simp add: verify_signature_short_pub_def list_copy_def Let_def lb)
  show ?thesis
  proof (cases "\<forall>i<256. promoted_index ?bits i < length (h ! r)")
    case True
    then have "\<forall>i\<in>set [0..<256]. i < length ?bits \<and> promoted_index ?bits i < length (?h1 ! length h)"
      by (simp add: lb)
    from verify_loop_ok [OF a this, of H]
    have "?v = (Inr (), ?h1[length h := promote H ?bits [0..<256] (h ! r)])"
      by (simp only: c)
    then show ?thesis using True by (simp add: u split: sum.splits)
  next
    case False
    then have "\<not> (\<forall>i\<in>set [0..<256]. i < length ?bits \<and> promoted_index ?bits i < length (?h1 ! length h))"
      by (auto simp add: lb)
    from verify_loop_fail [OF a this, of H]
    have "fst ?v = Inl IndexError" .
    then obtain h2 where "?v = (Inl IndexError, h2)" by (cases ?v) simp
    then have "fst (verify_signature_short_pub H depth m pk r h) = Inl IndexError"
      by (simp add: u)
    then show ?thesis by (simp only: if_not_P [OF False])
  qed
qed

text \<open>
  Claim C9. In the short-public-key scheme \<open>verify_signature\<close> leaves the caller's
  signature unchanged: the replacements are made on the list that \<open>signature.copy()\<close>
  allocates. Whatever the outcome (a boolean or an exception), the heap afterwards is the
  heap before with one list more, so the signature's list, and every other list the caller
  holds, has the elements it had.
\<close>

theorem verify_short_pub_keeps_signature:
  "r < length h \<longrightarrow>
     snd (verify_signature_short_pub H depth m pk r h) ! r = h ! r \<and>
     take (length h) (snd (verify_signature_short_pub H depth m pk r h)) = h \<and>
     length (snd (verify_signature_short_pub H depth m pk r h)) = Suc (length h)"
proof
  assume r: "r < length h"
  let ?h' = "snd (verify_signature_short_pub H depth m pk r h)"
  from verify_short_pub_frame [of H depth m pk r h]
  have l: "length ?h' = Suc (length h)" and t: "take (length h) ?h' = h" by simp_all
  have "take (length h) ?h' ! r = ?h' ! r" using r by simp
  with t have "?h' ! r = h ! r" by simp
  with l t show "?h' ! r = h ! r \<and> take (length h) ?h' = h \<and> length ?h' = Suc (length h)"
    by simp
qed

theorem verify_short_pub_keeps_signature_witness:
  "(0 :: nat) < length [[[1 :: byte]], [[2], [3]]] \<and>
   snd (verify_signature_short_pub (\<lambda>b. take 32 (b @ replicate 32 0)) 10 ''Hello, world!'' [] 0
          [[[1]], [[2], [3]]]) ! 0 = [[[1]], [[2], [3]]] ! 0 \<and>
   take (length [[[1 :: byte]], [[2], [3]]])
     (snd (verify_signature_short_pub (\<lambda>b. take 32 (b @ replicate 32 0)) 10 ''Hello, world!'' [] 0
             [[[1]], [[2], [3]]])) = [[[1]], [[2], [3]]]"
proof -
  have a: "(0 :: nat) < length [[[1 :: byte]], [[2], [3]]]" by simp
  from verify_short_pub_keeps_signature [of 0 "[[[1]], [[2], [3]]]"
      "\<lambda>b. take 32 (b @ replicate 32 0)" 10 "''Hello, world!''" "[]"] a
  show ?thesis by blast
qed

lemma promoted_index_lt: "i < 256 \<Longrightarrow> 512 \<le> n \<Longrightarrow> promoted_index bits i < n"
  by (simp add: promoted_index_def)

lemma promote_signature:
  assumes len: "length sk = 512"
  shows "promote H bits [0..<256] (concat (map (signed_pair H bits sk) [0..<256])) = map H sk"
proof (rule nth_equalityI)
  let ?sig = "concat (map (signed_pair H bits sk) [0..<256])"
  have ls: "length ?sig = 512" by (simp add: signature_length)
  show "length (promote H bits [0..<256] ?sig) = length (map H sk)"
    by (simp only: promote_length ls length_map len)
  fix j assume "j < length (promote H bits [0..<256] ?sig)"
  then have j: "j < 512" by (simp only: promote_length ls)
  define i where "i = j div 2"
  have i: "i < 256" using j by (simp add: i_def)
  have jj: "j = 2 * i \<or> j = 2 * i + 1" by (auto simp: i_def)
  have mem: "(j \<in> promoted_index bits ` set [0..<256]) = (j = promoted_index bits i)"
  proof
    assume "j \<in> promoted_index bits ` set [0..<256]"
    then obtain i' where "j = promoted_index bits i'" by auto
    then show "j = promoted_index bits i" using promoted_index_div [of bits i'] by (simp add: i_def)
  next
    assume "j = promoted_index bits i"
    then show "j \<in> promoted_index bits ` set [0..<256]" using i by simp
  qed
  have p: "promote H bits [0..<256] ?sig ! j = (if j = promoted_index bits i then H (?sig ! j) else ?sig ! j)"
    using promote_nth [of "[0..<256]" j ?sig H bits] j ls by (simp only: mem distinct_upt simp_thms)
  note n = signature_nth [OF i, of H bits sk]
  have "promote H bits [0..<256] ?sig ! j = H (sk ! j)"
    using jj
  proof
    assume e: "j = 2 * i"
    show ?thesis unfolding p using n by (simp add: e promoted_index_def)
  next
    assume e: "j = 2 * i + 1"
    show ?thesis unfolding p using n by (simp add: e promoted_index_def)
  qed
  then show "promote H bits [0..<256] ?sig ! j = map H sk ! j" using j len by simp
qed

lemma merkle_root_512:
  assumes "length ls = 512"
  shows "\<exists>root. \<forall>depth\<ge>10. merkle_root H depth ls = Inr root"
proof -
  have "ls \<noteq> []" using assms by auto
  moreover have "length ls \<le> 2 ^ 9" using assms by simp
  ultimately obtain root where "merkle_root H (Suc 9) ls = Inr root"
    using merkle_root_returns by blast
  then have "merkle_root H 10 ls = Inr root" by simp
  then have "\<forall>depth\<ge>10. merkle_root H depth ls = Inr root"
    using merkle_root_mono by blast
  then show ?thesis by blast
qed

lemma short_pub_round_trip:
  assumes H: "digest32 H" and len: "length sk = 512" and d: "10 \<le> depth" "10 \<le> depth'"
  shows "\<exists>pk sig. generate_public_key_short_pub H depth sk = Inr pk \<and>
           sign_message_short_pub H m sk = Inr sig \<and>
           (\<forall>h r. r < length h \<and> h ! r = sig \<longrightarrow>
              fst (verify_signature_short_pub H depth' m pk r h) = Inr True)"
proof -
  let ?bits = "convert_bytes_to_bits (hash_message H m)"
  let ?sig = "concat (map (signed_pair H ?bits sk) [0..<256])"
  have "length (map H sk) = 512" using len by simp
  from merkle_root_512 [OF this, of H] obtain root where
    root: "\<forall>depth\<ge>10. merkle_root H depth (map H sk) = Inr root" by blast
  have pk: "generate_public_key_short_pub H depth sk = Inr root"
    using root d(1) by (simp add: generate_public_key_short_pub_def hash_bytes_def [abs_def])
  have sg: "sign_message_short_pub H m sk = Inr ?sig"
    using len by (simp add: sign_message_short_pub_char [OF H])
  have ls: "length ?sig = 512" by (simp add: signature_length)
  have idx: "\<forall>i<256. promoted_index ?bits i < length ?sig"
    using promoted_index_lt [of _ "length ?sig" ?bits] ls by simp
  have "fst (verify_signature_short_pub H depth' m root r h) = Inr True"
    if "r < length h \<and> h ! r = ?sig" for h r
  proof -
    from that have e: "h ! r = ?sig" by simp
    have "fst (verify_signature_short_pub H depth' m root r h) =
        (case merkle_root H depth' (promote H ?bits [0..<256] ?sig) of
           Inl e \<Rightarrow> Inl e | Inr root' \<Rightarrow> Inr (root = root'))"
      unfolding verify_short_pub_char [OF H] e by (simp only: if_P [OF idx])
    then show ?thesis using root d(2) by (simp add: promote_signature [OF len])
  qed
  with pk sg show ?thesis by blast
qed

lemma generate_private_key_short_pub_wf:
  "length (fst (generate_private_key_short_pub rnd pos)) = 512 \<and>
   (\<forall>x\<in>set (fst (generate_private_key_short_pub rnd pos)). length x = 32)"
proof -
  have "length (fst (generate_private_key_short_pub rnd pos)) = 2 * max_message_length"
    unfolding generate_private_key_short_pub_def by (rule comprehension_length)
  moreover have "length x = 32" if "x \<in> set (fst (generate_private_key_short_pub rnd pos))" for x
    using that unfolding generate_private_key_short_pub_def
    by (rule comprehension_all [rotated]) (simp add: token_bytes_def security_parameter_def)
  ultimately show ?thesis by (simp add: max_message_length_def)
qed

lemma short_pub_keypair_round_trip:
  assumes H: "digest32 H" and d: "10 \<le> depth" "10 \<le> depth'"
  shows "\<exists>pk sk sig pos'. generate_keypair_short_pub H depth rnd pos = (Inr (pk, sk), pos') \<and>
           sign_message_short_pub H m sk = Inr sig \<and>
           (\<forall>h r. r < length h \<and> h ! r = sig \<longrightarrow>
              fst (verify_signature_short_pub H depth' m pk r h) = Inr True)"
proof -
  obtain sk pos' where g: "generate_private_key_short_pub rnd pos = (sk, pos')"
    by (cases "generate_private_key_short_pub rnd pos")
  with generate_private_key_short_pub_wf [of rnd pos] have len: "length sk = 512" by simp
  from short_pub_round_trip [OF H len d, of m] obtain pk sig where
    p: "generate_public_key_short_pub H depth sk = Inr pk" and
    s: "sign_message_short_pub H m sk = Inr sig" and
    v: "\<forall>h r. r < length h \<and> h ! r = sig \<longrightarrow>
              fst (verify_signature_short_pub H depth' m pk r h) = Inr True" by blast
  have "generate_keypair_short_pub H depth rnd pos = (Inr (pk, sk), pos')"
    by (simp add: generate_keypair_short_pub_def g p)
  with s v show ?thesis by blast
qed

section \<open>Signing then verifying\<close>

text \<open>
  Claim C1. In each of the three schemes, for every message and every source of
  randomness, \<open>generate_keypair\<close> returns a key pair, \<open>sign_message\<close> returns a signature of
  the message under the private key, and \<open>verify_signature\<close> of the message, the public key
  and that signature returns \<open>True\<close>. In the short-public-key scheme the stack must hold the
  ten nested calls of \<open>merkle_root\<close> on 512 leaves, and the signature is passed by reference.
\<close>

theorem sign_then_verify:
  "digest32 H \<longrightarrow>
     (\<exists>pk sk sig pos'.
        generate_keypair_naive H rnd pos = (Inr (pk, sk), pos') \<and>
        sign_message_naive H m sk = Inr sig \<and>
        verify_signature_naive H m pk sig = Inr True) \<and>
     (\<exists>pk sk sig pos'.
        generate_keypair_short_priv ks H rnd pos = (Inr (pk, sk), pos') \<and>
        sign_message_short_priv ks H m sk = Inr sig \<and>
        verify_signature_short_priv H m pk sig = Inr True) \<and>
     (10 \<le> depth \<and> 10 \<le> depth' \<longrightarrow>
        (\<exists>pk sk sig pos'.
           generate_keypair_short_pub H depth rnd pos = (Inr (pk, sk), pos') \<and>
           sign_message_short_pub H m sk = Inr sig \<and>
           (\<forall>h r. r < length h \<and> h ! r = sig \<longrightarrow>
              fst (verify_signature_short_pub H depth' m pk r h) = Inr True)))"
  using naive_keypair_round_trip [of H rnd pos m]
    short_priv_keypair_round_trip [of H ks rnd pos m]
    short_pub_keypair_round_trip [of H depth depth' rnd pos m]
  by blast

theorem sign_then_verify_witness:
  "digest32 (\<lambda>b. take 32 (b @ replicate 32 0)) \<and> (10 :: nat) \<le> 10 \<and>
   (\<exists>pk sk sig pos'.
      generate_keypair_naive (\<lambda>b. take 32 (b @ replicate 32 0)) of_nat 0 = (Inr (pk, sk), pos') \<and>
      sign_message_naive (\<lambda>b. take 32 (b @ replicate 32 0)) ''Hello, world!'' sk = Inr sig \<and>
      verify_signature_naive (\<lambda>b. take 32 (b @ replicate 32 0)) ''Hello, world!'' pk sig = Inr True) \<and>
   (\<exists>pk sk sig pos'.
      generate_keypair_short_priv (\<lambda>k n i. of_nat i) (\<lambda>b. take 32 (b @ replicate 32 0)) of_nat 0
        = (Inr (pk, sk), pos') \<and>
      sign_message_short_priv (\<lambda>k n i. of_nat i) (\<lambda>b. take 32 (b @ replicate 32 0))
        ''Hello, world!'' sk = Inr sig \<and>
      verify_signature_short_priv (\<lambda>b. take 32 (b @ replicate 32 0)) ''Hello, world!'' pk sig
        = Inr True) \<and>
   (\<exists>pk sk sig pos'.
      generate_keypair_short_pub (\<lambda>b. take 32 (b @ replicate 32 0)) 10 of_nat 0
        = (Inr (pk, sk), pos') \<and>
      sign_message_short_pub (\<lambda>b. take 32 (b @ replicate 32 0)) ''Hello, world!'' sk = Inr sig \<and>
      (0 :: nat) < length [sig] \<and> [sig] ! 0 = sig \<and>
      fst (verify_signature_short_pub (\<lambda>b. take 32 (b @ replicate 32 0)) 10 ''Hello, world!'' pk 0
             [sig]) = Inr True)"
proof -
  define H :: hash where "H = (\<lambda>b. take 32 (b @ replicate 32 0))"
  define ks :: keystream where "ks = (\<lambda>k n i. of_nat i)"
  define rnd :: urandom where "rnd = of_nat"
  have a: "digest32 H" unfolding H_def by (rule digest32_pad)
  have b: "(10 :: nat) \<le> 10" by simp
  note t = sign_then_verify [of H rnd 0 "''Hello, world!''" ks 10 10, THEN mp, OF a]
  from t have A: "\<exists>pk sk sig pos'.
        generate_keypair_naive H rnd 0 = (Inr (pk, sk), pos') \<and>
        sign_message_naive H ''Hello, world!'' sk = Inr sig \<and>
        verify_signature_naive H ''Hello, world!'' pk sig = Inr True"
    by (rule conjunct1)
  from t have B: "\<exists>pk sk sig pos'.
        generate_keypair_short_priv ks H rnd 0 = (Inr (pk, sk), pos') \<and>
        sign_message_short_priv ks H ''Hello, world!'' sk = Inr sig \<and>
        verify_signature_short_priv H ''Hello, world!'' pk sig = Inr True"
    by (rule conjunct2 [THEN conjunct1])
  from t b obtain pk sk sig pos' where
    g: "generate_keypair_short_pub H 10 rnd 0 = (Inr (pk, sk), pos')" and
    s: "sign_message_short_pub H ''Hello, world!'' sk = Inr sig" and
    v: "\<forall>h r. r < length h \<and> h ! r = sig \<longrightarrow>
              fst (verify_signature_short_pub H 10 ''Hello, world!'' pk r h) = Inr True"
    by blast
  have r: "(0 :: nat) < length [sig]" "[sig] ! 0 = sig" by simp_all
  with v have "fst (verify_signature_short_pub H 10 ''Hello, world!'' pk 0 [sig]) = Inr True"
    by blast
  with g s r have C: "\<exists>pk sk sig pos'.
      generate_keypair_short_pub H 10 rnd 0 = (Inr (pk, sk), pos') \<and>
      sign_message_short_pub H ''Hello, world!'' sk = Inr sig \<and>
      (0 :: nat) < length [sig] \<and> [sig] ! 0 = sig \<and>
      fst (verify_signature_short_pub H 10 ''Hello, world!'' pk 0 [sig]) = Inr True"
    by blast
  show ?thesis using a b A B C unfolding H_def ks_def rnd_def by (intro conjI)
qed

section \<open>Keys and signatures of the wrong shape\<close>

lemma list_eq_nth_256:
  assumes "length ys = 256"
  shows "(map f [0..<256] = ys) = (\<forall>i<256. f i = ys ! i)"
proof
  assume e: "map f [0..<256] = ys"
  show "\<forall>i<256. f i = ys ! i"
  proof (intro allI impI)
    fix i :: nat assume i: "i < 256"
    then have "map f [0..<256] ! i = f i" by (simp only: nth_map_upt diff_zero add_0)
    with e show "f i = ys ! i" by simp
  qed
next
  assume a: "\<forall>i<256. f i = ys ! i"
  show "map f [0..<256] = ys"
  proof (rule nth_equalityI)
    show "length (map f [0..<256]) = length ys" using assms by simp
  next
    fix i assume "i < length (map f [0..<256])"
    then have i: "i < 256" by simp
    then have "map f [0..<256] ! i = f i" by (simp only: nth_map_upt diff_zero add_0)
    with a i show "map f [0..<256] ! i = ys ! i" by simp
  qed
qed

lemma list_neq_length_256:
  assumes "length ys \<noteq> 256"
  shows "(map f [0..<256] = ys) = False"
proof -
  have "length (map f [0..<256]) = 256" by simp
  with assms show ?thesis by metis
qed

lemma verify_naive_wrong_length:
  assumes "digest32 H" and "512 \<le> length pk" and "\<forall>x\<in>set sig. uint256 x"
    and "length sig \<noteq> 256"
  shows "verify_signature_naive H m pk sig = Inr False"
proof -
  have "length (map (\<lambda>x. H (be32 x)) sig) \<noteq> 256" using assms(4) by simp
  from list_neq_length_256 [OF this] show ?thesis
    by (simp only: verify_signature_naive_char [OF assms(1-3)])
qed

lemma verify_short_priv_wrong_length:
  assumes "digest32 H" and "512 \<le> length pk" and "length sig \<noteq> 256"
  shows "verify_signature_short_priv H m pk sig = Inr False"
proof -
  have "length (map H sig) \<noteq> 256" using assms(3) by simp
  from list_neq_length_256 [OF this] show ?thesis
    by (simp only: verify_signature_short_priv_char [OF assms(1-2)])
qed

lemma map_raise_hash_key_element_char:
  "map_raise (hash_key_element H) xs =
     (if \<forall>x\<in>set xs. uint256 x then Inr (map (\<lambda>x. H (be32 x)) xs) else Inl OverflowError)"
  by (induction xs) (simp_all add: hash_key_element_uint256)

lemma verify_naive_out_of_range:
  assumes "digest32 H" and "512 \<le> length pk" and "\<not> (\<forall>x\<in>set sig. uint256 x)"
  shows "verify_signature_naive H m pk sig = Inl OverflowError"
proof -
  have "32 \<le> length (hash_message H m)" using length_hash_message [OF assms(1)] by simp
  from choose_key_elements_ok [OF this assms(2)]
  show ?thesis
    by (simp add: verify_signature_naive_def map_raise_hash_key_element_char if_not_P [OF assms(3)])
qed

lemma not_uint256_pow: "\<not> uint256 (2 ^ 256)"
  by (simp add: uint256_def)

text \<open>
  Claim C10, as stated, fails in the naive scheme: for every hash with 32-byte digests,
  verifying the one-element signature \<open>[2 ** 256]\<close> under a public key of 512 elements
  raises OverflowError, where the claim has it return \<open>False\<close>: \<open>hash_key_element\<close>
  converts every element of the signature to 32 bytes before the lists are compared.
\<close>

theorem verify_wrong_length_may_raise:
  "\<not> (\<exists>H. digest32 H \<and>
         verify_signature_naive H ''Hello, world!'' (replicate 512 []) [2 ^ 256]
           \<noteq> Inl OverflowError)"
proof
  assume "\<exists>H. digest32 H \<and>
         verify_signature_naive H ''Hello, world!'' (replicate 512 []) [2 ^ 256]
           \<noteq> Inl OverflowError"
  then obtain H where H: "digest32 H" and
    n: "verify_signature_naive H ''Hello, world!'' (replicate 512 []) [2 ^ 256] \<noteq> Inl OverflowError"
    by blast
  have l: "512 \<le> length (replicate 512 ([] :: bytes))" by simp
  have r: "\<not> (\<forall>x\<in>set [2 ^ 256 :: int]. uint256 x)" using not_uint256_pow by simp
  from verify_naive_out_of_range [OF H l r] n show False by blast
qed

text \<open>
  Claim C10, amended. With a hash of 32-byte digests and a public key of 512 elements:
  in the naive scheme, a signature whose length is not \<open>max_message_length\<close> = 256 and
  whose elements are all 256-bit integers (\<open>0 \<le> x < 2 ^ 256\<close>) makes \<open>verify_signature\<close>
  return \<open>False\<close>, and a signature of any length with an element outside that range makes
  it raise OverflowError; in the short-private-key scheme, every signature whose length is
  not 256 makes \<open>verify_signature\<close> return \<open>False\<close>. Where \<open>False\<close> is returned, it is
  because the 256 selected public-key elements and the hashes of the signature's elements
  are lists of different lengths.
\<close>

theorem verify_wrong_length_returns_false:
  "(digest32 H \<and> length pk = 2 * max_message_length \<and> length sig \<noteq> max_message_length \<and>
      (\<forall>x\<in>set sig. uint256 x) \<longrightarrow>
      verify_signature_naive H m pk sig = Inr False) \<and>
   (digest32 H \<and> length pk = 2 * max_message_length \<and> (\<exists>x\<in>set sig'. \<not> uint256 x) \<longrightarrow>
      verify_signature_naive H m pk sig' = Inl OverflowError) \<and>
   (digest32 H \<and> length pk = 2 * max_message_length \<and> length sigb \<noteq> max_message_length \<longrightarrow>
      verify_signature_short_priv H m pk sigb = Inr False)"
proof (intro conjI impI)
  assume "digest32 H \<and> length pk = 2 * max_message_length \<and> length sig \<noteq> max_message_length \<and>
      (\<forall>x\<in>set sig. uint256 x)"
  then have "digest32 H" "512 \<le> length pk" "\<forall>x\<in>set sig. uint256 x" "length sig \<noteq> 256"
    by (simp_all add: max_message_length_def)
  then show "verify_signature_naive H m pk sig = Inr False"
    by (rule verify_naive_wrong_length)
next
  assume "digest32 H \<and> length pk = 2 * max_message_length \<and> (\<exists>x\<in>set sig'. \<not> uint256 x)"
  then have "digest32 H" "512 \<le> length pk" "\<not> (\<forall>x\<in>set sig'. uint256 x)"
    by (simp_all add: max_message_length_def)
  then show "verify_signature_naive H m pk sig' = Inl OverflowError"
    by (rule verify_naive_out_of_range)
next
  assume "digest32 H \<and> length pk = 2 * max_message_length \<and> length sigb \<noteq> max_message_length"
  then have "digest32 H" "512 \<le> length pk" "length sigb \<noteq> 256"
    by (simp_all add: max_message_length_def)
  then show "verify_signature_short_priv H m pk sigb = Inr False"
    by (rule verify_short_priv_wrong_length)
qed

theorem verify_wrong_length_returns_false_witness:
  "digest32 (\<lambda>b. take 32 (b @ replicate 32 0)) \<and>
   length (replicate 512 ([] :: bytes)) = 2 * max_message_length \<and>
   length [1, 2, 3 :: int] \<noteq> max_message_length \<and> uint256 1 \<and> uint256 2 \<and> uint256 3 \<and>
   \<not> uint256 (2 ^ 256) \<and>
   length [[1 :: byte]] \<noteq> max_message_length \<and>
   verify_signature_naive (\<lambda>b. take 32 (b @ replicate 32 0)) ''Hello, world!''
     (replicate 512 []) [1, 2, 3] = Inr False \<and>
   verify_signature_naive (\<lambda>b. take 32 (b @ replicate 32 0)) ''Hello, world!''
     (replicate 512 []) [1, 2 ^ 256] = Inl OverflowError \<and>
   verify_signature_short_priv (\<lambda>b. take 32 (b @ replicate 32 0)) ''Hello, world!''
     (replicate 512 []) [[1]] = Inr False"
proof -
  have a: "digest32 (\<lambda>b. take 32 (b @ replicate 32 0))" by (rule digest32_pad)
  have b: "length (replicate 512 ([] :: bytes)) = 2 * max_message_length"
    by (simp add: max_message_length_def)
  have c: "length [1, 2, 3 :: int] \<noteq> max_message_length" "length [[1 :: byte]] \<noteq> max_message_length"
    by (simp_all add: max_message_length_def)
  have g: "uint256 1" "uint256 2" "uint256 3" by (simp_all add: uint256_def)
  then have d: "\<forall>x\<in>set [1, 2, 3 :: int]. uint256 x" by simp
  have n: "\<not> uint256 (2 ^ 256)" by (rule not_uint256_pow)
  then have d': "\<exists>x\<in>set [1, 2 ^ 256 :: int]. \<not> uint256 x" by simp
  note t = verify_wrong_length_returns_false [of "\<lambda>b. take 32 (b @ replicate 32 0)"
      "replicate 512 []" "[1, 2, 3]" "''Hello, world!''" "[1, 2 ^ 256]" "[[1]]"]
  have e: "verify_signature_naive (\<lambda>b. take 32 (b @ replicate 32 0)) ''Hello, world!''
     (replicate 512 []) [1, 2, 3] = Inr False"
    using t a b c(1) d by blast
  have e': "verify_signature_naive (\<lambda>b. take 32 (b @ replicate 32 0)) ''Hello, world!''
     (replicate 512 []) [1, 2 ^ 256] = Inl OverflowError"
    using t a b d' by blast
  have f: "verify_signature_short_priv (\<lambda>b. take 32 (b @ replicate 32 0)) ''Hello, world!''
     (replicate 512 []) [[1]] = Inr False"
    using t a b c(2) by blast
  show ?thesis using a b c g n e e' f by (intro conjI)
qed

lemma selected_take:
  assumes "512 \<le> length key"
  shows "map (\<lambda>k. take 512 key ! key_index mh k) [0..<256] = map (\<lambda>k. key ! key_index mh k) [0..<256]"
proof (rule map_cong)
  fix k assume "k \<in> set [0..<256]"
  then have "key_index mh k < 512" using key_index_bound [of mh k] by simp
  then show "take 512 key ! key_index mh k = key ! key_index mh k" by simp
qed simp

lemma sign_naive_long:
  assumes H: "digest32 H" and len: "512 \<le> length key"
  shows "(\<exists>sig. sign_message_naive H m key = Inr sig) \<and>
         sign_message_naive H m key = sign_message_naive H m (take 512 key)"
proof -
  have mh: "32 \<le> length (hash_message H m)" using length_hash_message [OF H] by simp
  have l': "512 \<le> length (take 512 key)" using len by simp
  have a: "sign_message_naive H m key = Inr (map (\<lambda>k. key ! key_index (hash_message H m) k) [0..<256])"
    unfolding sign_message_naive_def Let_def by (rule choose_key_elements_ok [OF mh len])
  have b: "sign_message_naive H m (take 512 key)
      = Inr (map (\<lambda>k. take 512 key ! key_index (hash_message H m) k) [0..<256])"
    unfolding sign_message_naive_def Let_def by (rule choose_key_elements_ok [OF mh l'])
  show ?thesis unfolding a b by (simp only: selected_take [OF len]) simp
qed

lemma sign_naive_short:
  "length key \<le> 510 \<Longrightarrow> sign_message_naive H m key = Inl IndexError"
  unfolding sign_message_naive_def Let_def by (rule choose_key_elements_short)

lemma verify_naive_short_key:
  "length pk \<le> 510 \<Longrightarrow> verify_signature_naive H m pk sig = Inl IndexError"
  by (simp add: verify_signature_naive_def choose_key_elements_short)

lemma verify_short_priv_short_key:
  "length pk \<le> 510 \<Longrightarrow> verify_signature_short_priv H m pk sig = Inl IndexError"
  by (simp add: verify_signature_short_priv_def choose_key_elements_short)

lemma sign_short_priv_bad_seed:
  assumes "sk ''key'' = Some k" and "sk ''nonce'' = Some n" and "length k \<noteq> 32 \<or> length n \<noteq> 16"
  shows "sign_message_short_priv ks H m sk = Inl ValueError"
proof -
  have "expand_private_key ks sk = Inl ValueError"
    using assms by (auto simp add: expand_private_key_char)
  then show ?thesis by (simp add: sign_message_short_priv_def)
qed

lemma sign_short_pub_short:
  "digest32 H \<Longrightarrow> length key < 512 \<Longrightarrow> sign_message_short_pub H m key = Inl IndexError"
  by (simp add: sign_message_short_pub_char)

lemma verify_short_pub_short:
  assumes H: "digest32 H" and len: "length (h ! r) \<le> 510"
  shows "fst (verify_signature_short_pub H depth m pk r h) = Inl IndexError"
proof -
  let ?bits = "convert_bytes_to_bits (hash_message H m)"
  have "510 \<le> promoted_index ?bits 255" by (simp add: promoted_index_def)
  then have "\<not> promoted_index ?bits 255 < length (h ! r)" using len by simp
  moreover have "(255 :: nat) < 256" by simp
  ultimately have n: "\<not> (\<forall>i<256. promoted_index ?bits i < length (h ! r))" by blast
  show ?thesis by (simp only: verify_short_pub_char [OF H] if_not_P [OF n])
qed

text \<open>
  Claim C7, as stated, fails: for every hash with 32-byte digests, verifying an empty
  signature under a 512-element public key raises nothing, and signing with a key of 513
  elements raises nothing either (naive scheme).
\<close>

theorem wrong_shape_not_rejected:
  "\<not> (\<exists>H. digest32 H \<and>
         ((\<exists>e. verify_signature_naive H ''Hello, world!'' (replicate 512 []) [] = Inl e) \<or>
          (\<exists>e. sign_message_naive H ''Hello, world!'' (replicate 513 0) = Inl e)))"
proof
  assume "\<exists>H. digest32 H \<and>
         ((\<exists>e. verify_signature_naive H ''Hello, world!'' (replicate 512 []) [] = Inl e) \<or>
          (\<exists>e. sign_message_naive H ''Hello, world!'' (replicate 513 0) = Inl e))"
  then obtain H where H: "digest32 H" and
    e: "(\<exists>e. verify_signature_naive H ''Hello, world!'' (replicate 512 []) [] = Inl e) \<or>
        (\<exists>e. sign_message_naive H ''Hello, world!'' (replicate 513 0) = Inl e)" by blast
  have "verify_signature_naive H ''Hello, world!'' (replicate 512 []) [] = Inr False"
    by (rule verify_naive_wrong_length [OF H]) simp_all
  moreover have "\<exists>sig. sign_message_naive H ''Hello, world!'' (replicate 513 0) = Inr sig"
  proof -
    have "512 \<le> length (replicate 513 (0 :: int))" by simp
    from sign_naive_long [OF H this, of "''Hello, world!''"] show ?thesis by (rule conjunct1)
  qed
  ultimately show False using e by auto
qed

text \<open>
  Claim C7, amended. No scheme checks the shape of a key or of a signature, and there is
  no MalformedKey or MalformedSignature error. With a hash of 32-byte digests:
  \<^item> naive signing: a private key of 512 elements or more is accepted and only its first
    512 elements are read; a private key of at most 510 elements fails with IndexError;
  \<^item> naive and short-private-key verifying: a public key of at most 510 elements fails
    with IndexError;
  \<^item> short-private-key signing: a seed that has both entries, but whose key is not 32
    bytes or whose nonce is not 16 bytes, fails with the cipher's ValueError;
  \<^item> naive verifying under a public key of 512 elements: a signature whose length is not
    256 and whose elements are all 256-bit integers (\<open>0 \<le> x < 2 ^ 256\<close>) returns \<open>False\<close>,
    and a signature with an element outside that range raises OverflowError;
  \<^item> short-private-key verifying under a public key of 512 elements: a signature whose
    length is not 256 returns \<open>False\<close>;
  \<^item> short-public-key signing: a private key of fewer than 512 elements fails with
    IndexError;
  \<^item> short-public-key verifying: a signature of at most 510 elements fails with
    IndexError.
\<close>

theorem shapes_are_not_validated:
  "digest32 H \<longrightarrow>
     (2 * max_message_length \<le> length key \<longrightarrow>
        (\<exists>sig. sign_message_naive H m key = Inr sig) \<and>
        sign_message_naive H m key = sign_message_naive H m (take (2 * max_message_length) key)) \<and>
     (length key' \<le> 2 * max_message_length - 2 \<longrightarrow>
        sign_message_naive H m key' = Inl IndexError) \<and>
     (length pk' \<le> 2 * max_message_length - 2 \<longrightarrow>
        verify_signature_naive H m pk' sig = Inl IndexError \<and>
        verify_signature_short_priv H m pk' sigb = Inl IndexError) \<and>
     (sk ''key'' = Some k \<and> sk ''nonce'' = Some n \<and> (length k \<noteq> 32 \<or> length n \<noteq> 16) \<longrightarrow>
        sign_message_short_priv ks H m sk = Inl ValueError) \<and>
     (length pk = 2 * max_message_length \<and> length sig \<noteq> max_message_length \<and>
      (\<forall>x\<in>set sig. uint256 x) \<longrightarrow>
        verify_signature_naive H m pk sig = Inr False) \<and>
     (length pk = 2 * max_message_length \<and> length sigb \<noteq> max_message_length \<longrightarrow>
        verify_signature_short_priv H m pk sigb = Inr False) \<and>
     (length keyc < 2 * max_message_length \<longrightarrow>
        sign_message_short_pub H m keyc = Inl IndexError) \<and>
     (length (h ! r) \<le> 2 * max_message_length - 2 \<longrightarrow>
        fst (verify_signature_short_pub H depth m pkc r h) = Inl IndexError) \<and>
     (length pk = 2 * max_message_length \<and> (\<exists>x\<in>set sig'. \<not> uint256 x) \<longrightarrow>
        verify_signature_naive H m pk sig' = Inl OverflowError)"
proof (intro impI conjI)
  assume H: "digest32 H"
  have n: "2 * max_message_length = 512" "max_message_length = 256"
    "2 * max_message_length - 2 = 510"
    by (simp_all add: max_message_length_def)
  {
    assume "2 * max_message_length \<le> length key"
    then have l: "512 \<le> length key" by (simp only: n)
    note s = sign_naive_long [OF H l, of m]
    from s show "\<exists>sig. sign_message_naive H m key = Inr sig" by (rule conjunct1)
    from s show "sign_message_naive H m key = sign_message_naive H m (take (2 * max_message_length) key)"
      unfolding n(1) by (rule conjunct2)
  }
  {
    assume "length key' \<le> 2 * max_message_length - 2"
    then have "length key' \<le> 510" by (simp add: max_message_length_def)
    then show "sign_message_naive H m key' = Inl IndexError"
      by (rule sign_naive_short)
  }
  {
    assume "length pk' \<le> 2 * max_message_length - 2"
    then have a: "length pk' \<le> 510" by (simp add: max_message_length_def)
    from a show "verify_signature_naive H m pk' sig = Inl IndexError"
      by (rule verify_naive_short_key)
    from a show "verify_signature_short_priv H m pk' sigb = Inl IndexError"
      by (rule verify_short_priv_short_key)
  }
  {
    assume "sk ''key'' = Some k \<and> sk ''nonce'' = Some n \<and> (length k \<noteq> 32 \<or> length n \<noteq> 16)"
    then show "sign_message_short_priv ks H m sk = Inl ValueError"
      using sign_short_priv_bad_seed by blast
  }
  {
    assume "length pk = 2 * max_message_length \<and> length sig \<noteq> max_message_length \<and>
      (\<forall>x\<in>set sig. uint256 x)"
    then have "512 \<le> length pk" "\<forall>x\<in>set sig. uint256 x" "length sig \<noteq> 256"
      by (simp_all add: n)
    then show "verify_signature_naive H m pk sig = Inr False"
      by (rule verify_naive_wrong_length [OF H])
  }
  {
    assume "length pk = 2 * max_message_length \<and> length sigb \<noteq> max_message_length"
    then have "512 \<le> length pk" "length sigb \<noteq> 256" by (simp_all add: n)
    then show "verify_signature_short_priv H m pk sigb = Inr False"
      by (rule verify_short_priv_wrong_length [OF H])
  }
  {
    assume "length keyc < 2 * max_message_length"
    then have "length keyc < 512" by (simp add: max_message_length_def)
    then show "sign_message_short_pub H m keyc = Inl IndexError"
      by (rule sign_short_pub_short [OF H])
  }
  {
    assume "length (h ! r) \<le> 2 * max_message_length - 2"
    then have "length (h ! r) \<le> 510" by (simp add: max_message_length_def)
    then show "fst (verify_signature_short_pub H depth m pkc r h) = Inl IndexError"
      by (rule verify_short_pub_short [OF H])
  }
  {
    assume "length pk = 2 * max_message_length \<and> (\<exists>x\<in>set sig'. \<not> uint256 x)"
    then have "512 \<le> length pk" "\<not> (\<forall>x\<in>set sig'. uint256 x)"
      by (simp_all add: max_message_length_def)
    then show "verify_signature_naive H m pk sig' = Inl OverflowError"
      by (rule verify_naive_out_of_range [OF H])
  }
qed

theorem shapes_are_not_validated_witness:
  "digest32 (\<lambda>b. take 32 (b @ replicate 32 0)) \<and>
   2 * max_message_length \<le> length (replicate 513 (0 :: int)) \<and>
   (\<exists>sig. sign_message_naive (\<lambda>b. take 32 (b @ replicate 32 0)) ''Hello, world!''
            (replicate 513 0) = Inr sig) \<and>
   length ([] :: int list) \<le> 2 * max_message_length - 2 \<and>
   sign_message_naive (\<lambda>b. take 32 (b @ replicate 32 0)) ''Hello, world!'' [] = Inl IndexError \<and>
   length ([] :: bytes list) \<le> 2 * max_message_length - 2 \<and>
   verify_signature_naive (\<lambda>b. take 32 (b @ replicate 32 0)) ''Hello, world!'' [] [] = Inl IndexError \<and>
   verify_signature_short_priv (\<lambda>b. take 32 (b @ replicate 32 0)) ''Hello, world!'' [] []
     = Inl IndexError \<and>
   [''key'' \<mapsto> [1 :: byte], ''nonce'' \<mapsto> []] ''key'' = Some [1] \<and>
   [''key'' \<mapsto> [1 :: byte], ''nonce'' \<mapsto> []] ''nonce'' = Some [] \<and>
   length [1 :: byte] \<noteq> 32 \<and>
   sign_message_short_priv (\<lambda>k n i. of_nat i) (\<lambda>b. take 32 (b @ replicate 32 0)) ''Hello, world!''
     [''key'' \<mapsto> [1], ''nonce'' \<mapsto> []] = Inl ValueError \<and>
   length (replicate 512 ([] :: bytes)) = 2 * max_message_length \<and>
   length ([] :: int list) \<noteq> max_message_length \<and>
   length ([] :: bytes list) \<noteq> max_message_length \<and>
   verify_signature_naive (\<lambda>b. take 32 (b @ replicate 32 0)) ''Hello, world!''
     (replicate 512 []) [] = Inr False \<and>
   verify_signature_short_priv (\<lambda>b. take 32 (b @ replicate 32 0)) ''Hello, world!''
     (replicate 512 []) [] = Inr False \<and>
   length ([] :: bytes list) < 2 * max_message_length \<and>
   sign_message_short_pub (\<lambda>b. take 32 (b @ replicate 32 0)) ''Hello, world!'' [] = Inl IndexError \<and>
   length ([[]] ! 0 :: bytes list) \<le> 2 * max_message_length - 2 \<and>
   fst (verify_signature_short_pub (\<lambda>b. take 32 (b @ replicate 32 0)) 10 ''Hello, world!'' [] 0 [[]])
     = Inl IndexError \<and>
   \<not> uint256 (- 1) \<and>
   verify_signature_naive (\<lambda>b. take 32 (b @ replicate 32 0)) ''Hello, world!''
     (replicate 512 []) [- 1] = Inl OverflowError"
proof -
  define H :: hash where "H = (\<lambda>b. take 32 (b @ replicate 32 0))"
  define ks :: keystream where "ks = (\<lambda>k n i. of_nat i)"
  define sk :: py_dict where "sk = [''key'' \<mapsto> [1], ''nonce'' \<mapsto> []]"
  have a: "digest32 H" unfolding H_def by (rule digest32_pad)
  have h1: "2 * max_message_length \<le> length (replicate 513 (0 :: int))"
    and h2: "length ([] :: int list) \<le> 2 * max_message_length - 2"
    and h3: "length ([] :: bytes list) \<le> 2 * max_message_length - 2"
    and h5: "length (replicate 512 ([] :: bytes)) = 2 * max_message_length"
    and h6: "length ([] :: int list) \<noteq> max_message_length"
    and h7: "length ([] :: bytes list) \<noteq> max_message_length"
    and h8: "length ([] :: bytes list) < 2 * max_message_length"
    and h9: "length ([[]] ! 0 :: bytes list) \<le> 2 * max_message_length - 2"
    by (simp_all add: max_message_length_def)
  have h4: "sk ''key'' = Some [1]" "sk ''nonce'' = Some []" "length [1 :: byte] \<noteq> 32"
    by (simp_all add: sk_def)
  have h6': "\<forall>x\<in>set ([] :: int list). uint256 x" by simp
  have h10: "\<not> uint256 (- 1)" by (simp add: uint256_def)
  then have h10': "\<exists>x\<in>set [- 1 :: int]. \<not> uint256 x" by simp
  note t = shapes_are_not_validated [of H "replicate 513 0" "''Hello, world!''" "[]" "[]" "[]" "[]"
      sk "[1]" "[]" ks "replicate 512 []" "[]" "[[]]" 0 10 "[]" "[- 1]", THEN mp, OF a]
  have c9: "verify_signature_naive H ''Hello, world!'' (replicate 512 []) [- 1] = Inl OverflowError"
    using t h5 h10' by blast
  have c1: "\<exists>sig. sign_message_naive H ''Hello, world!'' (replicate 513 0) = Inr sig"
    using t h1 by blast
  have c2: "sign_message_naive H ''Hello, world!'' [] = Inl IndexError"
    using t h2 by blast
  have c3: "verify_signature_naive H ''Hello, world!'' [] [] = Inl IndexError"
    "verify_signature_short_priv H ''Hello, world!'' [] [] = Inl IndexError"
    using t h3 by blast+
  have c4: "sign_message_short_priv ks H ''Hello, world!'' sk = Inl ValueError"
    using t h4 by blast
  have c5: "verify_signature_naive H ''Hello, world!'' (replicate 512 []) [] = Inr False"
    using t h5 h6 h6' by blast
  have c6: "verify_signature_short_priv H ''Hello, world!'' (replicate 512 []) [] = Inr False"
    using t h5 h7 by blast
  have c7: "sign_message_short_pub H ''Hello, world!'' [] = Inl IndexError"
    using t h8 by blast
  have c8: "fst (verify_signature_short_pub H 10 ''Hello, world!'' [] 0 [[]]) = Inl IndexError"
    using t h9 by blast
  show ?thesis
    using a h1 c1 h2 c2 h3 c3 h4 c4 h5 h6 h7 c5 c6 h8 c7 h9 c8 h10 c9
    unfolding H_def ks_def sk_def by (intro conjI)
qed

section \<open>Forged signatures\<close>

text \<open>
  Any function with 32-byte digests maps two different byte strings, one of them of 32
  bytes, to the same digest: there are more strings of 32 bytes, together with one of 33
  bytes, than digests.
\<close>

lemma finite_bytes32: "finite {b :: bytes. length b = 32}"
  using finite_lists_length_eq [of "UNIV :: byte set" 32] by simp

lemma digest_collision:
  assumes H: "digest32 H"
  shows "\<exists>x y. length x = 32 \<and> x \<noteq> y \<and> H x = H y"
proof -
  let ?S = "{b :: bytes. length b = 32}"
  let ?z = "replicate 33 (0 :: byte)"
  let ?T = "insert ?z ?S"
  have fS: "finite ?S" by (rule finite_bytes32)
  have z: "?z \<notin> ?S" by simp
  have cT: "card ?T = Suc (card ?S)" using fS z by simp
  have "H ` ?T \<subseteq> ?S" using H by (auto simp: digest32_def)
  then have "card (H ` ?T) \<le> card ?S" using fS by (rule card_mono [rotated])
  then have "card (H ` ?T) < card ?T" using cT by simp
  then have "\<not> inj_on H ?T" by (rule pigeonhole)
  then obtain a b where ab: "a \<in> ?T" "b \<in> ?T" "a \<noteq> b" "H a = H b"
    by (auto simp: inj_on_def)
  show ?thesis
  proof (cases "length a = 32")
    case True
    with ab show ?thesis by blast
  next
    case False
    with ab(1) have "a = ?z" by simp
    with ab(2,3) have "length b = 32" by auto
    with ab show ?thesis by metis
  qed
qed

lemma promote_collision:
  assumes i: "i < 256" and len: "length xs = 512" and c: "H y = H (xs ! promoted_index bits i)"
  shows "promote H bits [0..<256] (xs[promoted_index bits i := y]) = promote H bits [0..<256] xs"
proof (rule nth_equalityI)
  let ?p = "promoted_index bits i"
  show "length (promote H bits [0..<256] (xs[?p := y])) = length (promote H bits [0..<256] xs)"
    by (simp only: promote_length length_list_update)
  fix j assume "j < length (promote H bits [0..<256] (xs[?p := y]))"
  then have j: "j < length xs" by (simp only: promote_length length_list_update)
  have p: "?p \<in> promoted_index bits ` set [0..<256]" using i by simp
  have a: "promote H bits [0..<256] (xs[?p := y]) ! j =
        (if j \<in> promoted_index bits ` set [0..<256] then H ((xs[?p := y]) ! j) else (xs[?p := y]) ! j)"
    by (rule promote_nth) (simp_all add: j)
  have b: "promote H bits [0..<256] xs ! j =
        (if j \<in> promoted_index bits ` set [0..<256] then H (xs ! j) else xs ! j)"
    by (rule promote_nth) (simp_all add: j)
  show "promote H bits [0..<256] (xs[?p := y]) ! j = promote H bits [0..<256] xs ! j"
  proof (cases "j = ?p")
    case True
    then show ?thesis unfolding a b using p j c by simp
  next
    case False
    then show ?thesis unfolding a b by simp
  qed
qed

text \<open>
  Rejecting every signature that signing did not produce is not a law of the scheme:
  whatever the hash (with 32-byte digests), the short-public-key scheme accepts some
  signature of 512 elements that signing did not produce. Take a private key whose
  elements are all the colliding 32-byte string and replace one revealed element of the
  signature by the other string of the collision. No such pair of strings is exhibited
  here; the argument only counts them.
\<close>

theorem forged_signature_accepted:
  "\<not> (\<exists>H. digest32 H \<and>
         (\<forall>m sk pk sig h r depth.
            length sk = 512 \<and> (\<forall>x\<in>set sk. length x = 32) \<and> 10 \<le> depth \<and>
            generate_public_key_short_pub H depth sk = Inr pk \<and>
            length sig = 512 \<and> sign_message_short_pub H m sk \<noteq> Inr sig \<and>
            r < length h \<and> h ! r = sig \<longrightarrow>
            fst (verify_signature_short_pub H depth m pk r h) = Inr False))"
proof
  assume "\<exists>H. digest32 H \<and>
         (\<forall>m sk pk sig h r depth.
            length sk = 512 \<and> (\<forall>x\<in>set sk. length x = 32) \<and> 10 \<le> depth \<and>
            generate_public_key_short_pub H depth sk = Inr pk \<and>
            length sig = 512 \<and> sign_message_short_pub H m sk \<noteq> Inr sig \<and>
            r < length h \<and> h ! r = sig \<longrightarrow>
            fst (verify_signature_short_pub H depth m pk r h) = Inr False)"
  then obtain H where H: "digest32 H" and claim:
    "\<And>m sk pk sig h r depth.
       length sk = 512 \<and> (\<forall>x\<in>set sk. length x = 32) \<and> 10 \<le> depth \<and>
       generate_public_key_short_pub H depth sk = Inr pk \<and>
       length sig = 512 \<and> sign_message_short_pub H m sk \<noteq> Inr sig \<and>
       r < length h \<and> h ! r = sig \<Longrightarrow>
       fst (verify_signature_short_pub H depth m pk r h) = Inr False"
    by blast
  from digest_collision [OF H] obtain x y where
    x: "length x = 32" and xy: "x \<noteq> y" and c: "H x = H y" by blast
  define sk where "sk = replicate 512 x"
  define m :: string where "m = ''Hello, world!''"
  define bits where "bits = convert_bytes_to_bits (hash_message H m)"
  define honest where "honest = concat (map (signed_pair H bits sk) [0..<256])"
  define p where "p = promoted_index bits 0"
  define forged where "forged = honest[p := y]"
  have len: "length sk = 512" by (simp add: sk_def)
  have wf: "\<forall>x\<in>set sk. length x = 32" by (simp add: sk_def x)
  have lh: "length honest = 512" by (simp add: honest_def signature_length)
  have lf: "length forged = 512" by (simp add: forged_def lh)
  have p: "p < 512" "p = 0 \<or> p = 1" by (auto simp: p_def promoted_index_def)
  have hp: "honest ! p = x"
    using signature_nth [of 0 256 H bits sk]
    by (auto simp: honest_def p_def promoted_index_def sk_def)
  have sg: "sign_message_short_pub H m sk = Inr honest"
    using len by (simp add: sign_message_short_pub_char [OF H] honest_def bits_def)
  have "forged ! p = y" using p(1) lh by (simp add: forged_def)
  with hp xy have "forged \<noteq> honest" by auto
  with sg have ne: "sign_message_short_pub H m sk \<noteq> Inr forged" by simp
  have d: "(10 :: nat) \<le> 10" by simp
  from short_pub_round_trip [OF H len d d, of m] sg obtain pk where
    pk: "generate_public_key_short_pub H 10 sk = Inr pk" and
    v: "\<forall>h r. r < length h \<and> h ! r = honest \<longrightarrow>
          fst (verify_signature_short_pub H 10 m pk r h) = Inr True"
    by auto
  have pr: "promote H bits [0..<256] forged = promote H bits [0..<256] honest"
    unfolding forged_def p_def
    by (rule promote_collision) (simp_all add: lh hp [unfolded p_def] c [symmetric])
  have idx: "\<forall>i<256. promoted_index bits i < 512" by (simp add: promoted_index_def)
  have "fst (verify_signature_short_pub H 10 m pk 0 [forged])
      = fst (verify_signature_short_pub H 10 m pk 0 [honest])"
    unfolding verify_short_pub_char [OF H] bits_def [symmetric] by (simp add: lf lh pr idx)
  also have "\<dots> = Inr True" using v by simp
  finally have t: "fst (verify_signature_short_pub H 10 m pk 0 [forged]) = Inr True" .
  have "fst (verify_signature_short_pub H 10 m pk 0 [forged]) = Inr False"
    by (rule claim [of sk 10 pk forged m 0 "[forged]"]) (simp add: len wf pk lf ne)
  with t show False by simp
qed


lemma promote_upt_nth:
  assumes "j < length xs" and "j < 2 * n"
  shows "promote H bits [0..<n] xs ! j =
           (if j = promoted_index bits (j div 2) then H (xs ! j) else xs ! j)"
proof -
  have "(j \<in> promoted_index bits ` set [0..<n]) = (j = promoted_index bits (j div 2))"
  proof
    assume "j \<in> promoted_index bits ` set [0..<n]"
    then obtain i where "j = promoted_index bits i" by auto
    then show "j = promoted_index bits (j div 2)" using promoted_index_div [of bits i] by simp
  next
    assume "j = promoted_index bits (j div 2)"
    moreover have "j div 2 \<in> set [0..<n]" using assms(2) by auto
    ultimately show "j \<in> promoted_index bits ` set [0..<n]" by blast
  qed
  then show ?thesis using promote_nth [of "[0..<n]" j xs H bits] assms(1) by simp
qed

text \<open>
  Claim C8, as stated, fails in the naive scheme: for every hash with 32-byte digests,
  verifying a signature of the expected length, 256 elements, that are all the integer
  \<open>2 ** 256\<close>, under a public key of 512 elements, raises OverflowError:
  \<open>hash_key_element\<close> cannot write the element as 32 bytes.
\<close>

theorem verify_expected_length_may_raise:
  "\<not> (\<exists>H. digest32 H \<and>
         verify_signature_naive H ''Hello, world!'' (replicate 512 []) (replicate 256 (2 ^ 256))
           \<noteq> Inl OverflowError)"
proof
  assume "\<exists>H. digest32 H \<and>
         verify_signature_naive H ''Hello, world!'' (replicate 512 []) (replicate 256 (2 ^ 256))
           \<noteq> Inl OverflowError"
  then obtain H where H: "digest32 H" and
    n: "verify_signature_naive H ''Hello, world!'' (replicate 512 []) (replicate 256 (2 ^ 256))
          \<noteq> Inl OverflowError"
    by blast
  have l: "512 \<le> length (replicate 512 ([] :: bytes))" by simp
  have "(2 ^ 256 :: int) \<in> set (replicate 256 (2 ^ 256))" by simp
  then have r: "\<not> (\<forall>x\<in>set (replicate 256 (2 ^ 256 :: int)). uint256 x)"
    using not_uint256_pow by blast
  from verify_naive_out_of_range [OF H l r] n show False by blast
qed

text \<open>
  Claim C8, amended. With a hash of 32-byte digests, \<open>verify_signature\<close> raises nothing
  and returns a definite boolean in these cases:
  \<^item> naive scheme, public key of 512 elements, signature of 256 elements that are all
    256-bit integers (\<open>0 \<le> x < 2 ^ 256\<close>): the boolean is \<open>True\<close> exactly when, for every
    \<open>i < 256\<close>, the hash of the 32 bytes of element \<open>i\<close> is the public-key element at index
    \<open>2 * i\<close> plus bit \<open>i\<close> of the message digest;
  \<^item> short-private-key scheme, public key of 512 elements, signature of 256 elements: the
    boolean is \<open>True\<close> exactly when, for every \<open>i < 256\<close>, the hash of element \<open>i\<close> is the
    public-key element at index \<open>2 * i\<close> plus bit \<open>i\<close> of the message digest;
  \<^item> short-public-key scheme, signature of 512 elements passed by reference, stack room
    for the ten nested calls of \<open>merkle_root\<close>: the boolean is \<open>True\<close> exactly when the
    public key is the Merkle root of the signature in which, for every \<open>i < 256\<close>, the
    element at index \<open>2 * i\<close> plus bit \<open>i\<close> is replaced by its hash.

  In each case \<open>False\<close> is the outcome, without an exception, of every signature that fails
  the comparison. In the naive scheme, under a public key of 512 elements, a signature with
  an element outside \<open>0 \<le> x < 2 ^ 256\<close> makes \<open>verify_signature\<close> raise OverflowError.
\<close>

theorem verify_returns_boolean:
  "digest32 H \<longrightarrow>
     (length pk = 2 * max_message_length \<and> length sig = max_message_length \<and>
      (\<forall>x\<in>set sig. uint256 x) \<longrightarrow>
        verify_signature_naive H m pk sig =
          Inr (\<forall>i<max_message_length. H (be32 (sig ! i)) = pk ! key_index (hash_message H m) i)) \<and>
     (length pk = 2 * max_message_length \<and> length sigb = max_message_length \<longrightarrow>
        verify_signature_short_priv H m pk sigb =
          Inr (\<forall>i<max_message_length. H (sigb ! i) = pk ! key_index (hash_message H m) i)) \<and>
     (r < length h \<and> length (h ! r) = 2 * max_message_length \<and> 10 \<le> depth \<longrightarrow>
        (\<exists>modified root.
           length modified = 2 * max_message_length \<and>
           (\<forall>j<2 * max_message_length.
              modified ! j =
                (if j = promoted_index (convert_bytes_to_bits (hash_message H m)) (j div 2)
                 then H (h ! r ! j) else h ! r ! j)) \<and>
           merkle_root H depth modified = Inr root \<and>
           fst (verify_signature_short_pub H depth m pkc r h) = Inr (pkc = root))) \<and>
     (length pk = 2 * max_message_length \<and> (\<exists>x\<in>set sig'. \<not> uint256 x) \<longrightarrow>
        verify_signature_naive H m pk sig' = Inl OverflowError)"
proof (intro impI conjI)
  assume H: "digest32 H"
  let ?mh = "hash_message H m"
  {
    assume "length pk = 2 * max_message_length \<and> length sig = max_message_length \<and>
      (\<forall>x\<in>set sig. uint256 x)"
    then have a: "512 \<le> length pk" "\<forall>x\<in>set sig. uint256 x" and l: "length sig = 256"
      by (simp_all add: max_message_length_def)
    have "(map (\<lambda>k. pk ! key_index ?mh k) [0..<256] = map (\<lambda>x. H (be32 x)) sig)
        = (\<forall>i<256. pk ! key_index ?mh i = map (\<lambda>x. H (be32 x)) sig ! i)"
      by (rule list_eq_nth_256) (simp add: l)
    also have "\<dots> = (\<forall>i<256. H (be32 (sig ! i)) = pk ! key_index ?mh i)"
      using l by auto
    finally show "verify_signature_naive H m pk sig =
          Inr (\<forall>i<max_message_length. H (be32 (sig ! i)) = pk ! key_index ?mh i)"
      by (simp only: verify_signature_naive_char [OF H a] max_message_length_def)
  }
  {
    assume "length pk = 2 * max_message_length \<and> length sigb = max_message_length"
    then have a: "512 \<le> length pk" and l: "length sigb = 256"
      by (simp_all add: max_message_length_def)
    have "(map (\<lambda>k. pk ! key_index ?mh k) [0..<256] = map H sigb)
        = (\<forall>i<256. pk ! key_index ?mh i = map H sigb ! i)"
      by (rule list_eq_nth_256) (simp add: l)
    also have "\<dots> = (\<forall>i<256. H (sigb ! i) = pk ! key_index ?mh i)"
      using l by auto
    finally show "verify_signature_short_priv H m pk sigb =
          Inr (\<forall>i<max_message_length. H (sigb ! i) = pk ! key_index ?mh i)"
      by (simp only: verify_signature_short_priv_char [OF H a] max_message_length_def)
  }
  {
    assume "r < length h \<and> length (h ! r) = 2 * max_message_length \<and> 10 \<le> depth"
    then have l: "length (h ! r) = 512" and d: "10 \<le> depth"
      by (simp_all add: max_message_length_def)
    let ?bits = "convert_bytes_to_bits ?mh"
    let ?mod = "promote H ?bits [0..<256] (h ! r)"
    have lm: "length ?mod = 512" by (simp only: promote_length l)
    from merkle_root_512 [OF lm, of H] d obtain root where
      root: "merkle_root H depth ?mod = Inr root" by blast
    have idx: "\<forall>i<256. promoted_index ?bits i < length (h ! r)"
      using promoted_index_lt [of _ "length (h ! r)" ?bits] l by simp
    have v: "fst (verify_signature_short_pub H depth m pkc r h) = Inr (pkc = root)"
      unfolding verify_short_pub_char [OF H] by (simp only: if_P [OF idx] root sum.case)
    have nth: "\<forall>j<2 * max_message_length.
              ?mod ! j = (if j = promoted_index ?bits (j div 2) then H (h ! r ! j) else h ! r ! j)"
    proof (intro allI impI)
      fix j assume "j < 2 * max_message_length"
      then have j: "j < 2 * 256" by (simp add: max_message_length_def)
      then have "j < length (h ! r)" using l by simp
      then show "?mod ! j = (if j = promoted_index ?bits (j div 2) then H (h ! r ! j) else h ! r ! j)"
        using j by (rule promote_upt_nth)
    qed
    have "length ?mod = 2 * max_message_length" using lm by (simp add: max_message_length_def)
    with nth root v
    show "\<exists>modified root.
           length modified = 2 * max_message_length \<and>
           (\<forall>j<2 * max_message_length.
              modified ! j =
                (if j = promoted_index ?bits (j div 2) then H (h ! r ! j) else h ! r ! j)) \<and>
           merkle_root H depth modified = Inr root \<and>
           fst (verify_signature_short_pub H depth m pkc r h) = Inr (pkc = root)"
      by blast
  }
  {
    assume "length pk = 2 * max_message_length \<and> (\<exists>x\<in>set sig'. \<not> uint256 x)"
    then have "512 \<le> length pk" "\<not> (\<forall>x\<in>set sig'. uint256 x)"
      by (simp_all add: max_message_length_def)
    then show "verify_signature_naive H m pk sig' = Inl OverflowError"
      by (rule verify_naive_out_of_range [OF H])
  }
qed

theorem verify_returns_boolean_witness:
  "digest32 (\<lambda>b. take 32 (b @ replicate 32 0)) \<and>
   length (replicate 512 ([] :: bytes)) = 2 * max_message_length \<and>
   length (replicate 256 (0 :: int)) = max_message_length \<and> uint256 0 \<and>
   length (replicate 256 ([] :: bytes)) = max_message_length \<and>
   (0 :: nat) < length [replicate 512 ([] :: bytes)] \<and>
   length ([replicate 512 ([] :: bytes)] ! 0) = 2 * max_message_length \<and> (10 :: nat) \<le> 10 \<and>
   (\<exists>b. verify_signature_naive (\<lambda>b. take 32 (b @ replicate 32 0)) ''Hello, world!''
          (replicate 512 []) (replicate 256 0) = Inr b) \<and>
   (\<exists>b. verify_signature_short_priv (\<lambda>b. take 32 (b @ replicate 32 0)) ''Hello, world!''
          (replicate 512 []) (replicate 256 []) = Inr b) \<and>
   (\<exists>b. fst (verify_signature_short_pub (\<lambda>b. take 32 (b @ replicate 32 0)) 10 ''Hello, world!''
               [] 0 [replicate 512 []]) = Inr b) \<and>
   \<not> uint256 (- 1) \<and>
   verify_signature_naive (\<lambda>b. take 32 (b @ replicate 32 0)) ''Hello, world!''
     (replicate 512 []) (replicate 255 0 @ [- 1]) = Inl OverflowError"
proof -
  define H :: hash where "H = (\<lambda>b. take 32 (b @ replicate 32 0))"
  have a: "digest32 H" unfolding H_def by (rule digest32_pad)
  have h1: "length (replicate 512 ([] :: bytes)) = 2 * max_message_length"
    and h2: "length (replicate 256 (0 :: int)) = max_message_length"
    and h3: "length (replicate 256 ([] :: bytes)) = max_message_length"
    and h4: "(0 :: nat) < length [replicate 512 ([] :: bytes)]"
    and h5: "length ([replicate 512 ([] :: bytes)] ! 0) = 2 * max_message_length"
    and h6: "(10 :: nat) \<le> 10"
    by (simp_all add: max_message_length_def)
  have u: "uint256 0" by (simp add: uint256_def)
  then have u': "\<forall>x\<in>set (replicate 256 (0 :: int)). uint256 x" by simp
  have h7: "\<not> uint256 (- 1)" by (simp add: uint256_def)
  then have h7': "\<exists>x\<in>set (replicate 255 0 @ [- 1 :: int]). \<not> uint256 x" by simp
  note t = verify_returns_boolean [of H "replicate 512 []" "replicate 256 0" "''Hello, world!''"
      "replicate 256 []" 0 "[replicate 512 []]" 10 "[]" "replicate 255 0 @ [- 1]", THEN mp, OF a]
  have c4: "verify_signature_naive H ''Hello, world!'' (replicate 512 []) (replicate 255 0 @ [- 1])
      = Inl OverflowError"
    using t h1 h7' by blast
  have c1: "\<exists>b. verify_signature_naive H ''Hello, world!'' (replicate 512 []) (replicate 256 0) = Inr b"
    using t h1 h2 u' by blast
  have c2: "\<exists>b. verify_signature_short_priv H ''Hello, world!'' (replicate 512 []) (replicate 256 [])
      = Inr b"
    using t h1 h3 by blast
  have c3: "\<exists>b. fst (verify_signature_short_pub H 10 ''Hello, world!'' [] 0 [replicate 512 []]) = Inr b"
    using t h4 h5 h6 by blast
  show ?thesis using a h1 h2 u h3 h4 h5 h6 c1 c2 c3 h7 c4 unfolding H_def by (intro conjI)
qed

end
